theory Spec2Isabelle
  imports Complex_Main
begin

section \<open>The outside world: git, the file system, the clock\<close>

text \<open>
  \<^verbatim>\<open>sync-v3.js\<close> is orchestration code: every step that matters is a call to simple-git,
  to \<^verbatim>\<open>fs.promises\<close>, to the GitHub API or to the clock. None of them is part of the
  repository, so the model takes them as an environment: a record of functions over an
  arbitrary world \<open>'w\<close>, each returning either an error (the rejected promise) or a
  value, together with the world after the call. The functions of the program are then
  translated one by one over that environment, and every theorem that is not an
  evaluation of a sample run holds for all environments.

  An exception is a value \<open>Error message\<close>; the code only ever reads \<open>err.message\<close>.
\<close>

datatype error = Error string

fun message :: "error \<Rightarrow> string" where
  "message (Error m) = m"

text \<open>What \<^verbatim>\<open>git.status()\<close> gives and the code reads: \<^verbatim>\<open>status.current\<close> and the paths
  of \<^verbatim>\<open>status.files\<close>.\<close>

record status_result =
  current :: string
  files :: "string list"

text \<open>The git commands the program issues through \<^verbatim>\<open>simpleGit(repoPath)\<close>, and the other
  external calls. An operation is recorded with the repository it was issued on.\<close>

datatype git_cmd =
    Status
  | Fetch
  | Diff "string list"
  | Stash "string list"
  | Pull
  | Add string
  | Commit string
  | Push
  | Revparse "string list"
  | Log
  | Raw "string list"

datatype op =
    Git string git_cmd
  | GitClone string string
  | GithubApi string string
  | FsReadFile string
  | FsStat string
  | FsCopyFile string string

text \<open>
  The run leaves a journal of events: every external call with its success flag, every
  entry into one of the per-repository operations (function name and argument), and every
  progress report \<^verbatim>\<open>dashProgress(current, total)\<close>. \<^verbatim>\<open>dashLog\<close> only prints and
  notifies the dashboard, swallowing its own failures; it decides nothing and is left
  out, as are the dashboard set-up and completion calls.
\<close>

datatype event =
    Ev op bool
  | Enter string string
  | Progress nat nat

record 'w env =
  git_status :: "string \<Rightarrow> 'w \<Rightarrow> (error + status_result) \<times> 'w"
  git_fetch :: "string \<Rightarrow> 'w \<Rightarrow> (error + unit) \<times> 'w"
  git_diff :: "string \<Rightarrow> string list \<Rightarrow> 'w \<Rightarrow> (error + string) \<times> 'w"
  git_stash :: "string \<Rightarrow> string list \<Rightarrow> 'w \<Rightarrow> (error + unit) \<times> 'w"
  git_pull :: "string \<Rightarrow> 'w \<Rightarrow> (error + string list option) \<times> 'w"
  git_add :: "string \<Rightarrow> string \<Rightarrow> 'w \<Rightarrow> (error + unit) \<times> 'w"
  git_commit :: "string \<Rightarrow> string \<Rightarrow> 'w \<Rightarrow> (error + unit) \<times> 'w"
  git_push :: "string \<Rightarrow> 'w \<Rightarrow> (error + unit) \<times> 'w"
  git_revparse :: "string \<Rightarrow> string list \<Rightarrow> 'w \<Rightarrow> (error + string) \<times> 'w"
  git_log :: "string \<Rightarrow> 'w \<Rightarrow> (error + nat) \<times> 'w"
  git_raw :: "string \<Rightarrow> string list \<Rightarrow> 'w \<Rightarrow> (error + string) \<times> 'w"
  git_clone :: "string \<Rightarrow> string \<Rightarrow> 'w \<Rightarrow> (error + unit) \<times> 'w"
  githubApi :: "string \<Rightarrow> string \<Rightarrow> 'w \<Rightarrow> (error + unit) \<times> 'w"
  fs_readFile :: "string \<Rightarrow> 'w \<Rightarrow> (error + string) \<times> 'w"
  fs_stat :: "string \<Rightarrow> 'w \<Rightarrow> (error + real) \<times> 'w"
  fs_copyFile :: "string \<Rightarrow> string \<Rightarrow> 'w \<Rightarrow> (error + unit) \<times> 'w"
  md5_hex :: "string \<Rightarrow> string"
  toISOString :: "'w \<Rightarrow> string \<times> 'w"
  toLocaleDateString :: "'w \<Rightarrow> string \<times> 'w"

text \<open>
  \<^verbatim>\<open>git_pull\<close> returns \<^verbatim>\<open>result.files\<close> (absent or a list); \<^verbatim>\<open>git_log\<close> returns
  \<^verbatim>\<open>log.total\<close>; \<^verbatim>\<open>fs_stat\<close> returns \<^verbatim>\<open>stat.mtimeMs\<close>, a finite double, read here as
  a real number (it is only compared); \<^verbatim>\<open>githubApi\<close>, the repository's thin wrapper
  around \<^verbatim>\<open>fetch\<close>, is taken whole with the endpoint and the method as arguments: its
  JSON answer is not read by the code modelled here.
\<close>

subsection \<open>Sequencing, exceptions, the journal\<close>

text \<open>
  A computation that may raise returns \<open>Inl\<close> of the error or \<open>Inr\<close> of its value, the
  world it leaves and the events it produced. A function whose whole body is a
  \<^verbatim>\<open>try { ... } catch\<close> cannot raise and returns a plain value. \<open>try_catch\<close> is such
  an outermost handler, \<open>recover\<close> a handler whose own body may raise again.
\<close>

type_synonym ('w, 'a) prog = "'w \<Rightarrow> (error + 'a) \<times> 'w \<times> event list"
type_synonym ('w, 'a) total = "'w \<Rightarrow> 'a \<times> 'w \<times> event list"

definition res :: "'r \<times> 'w \<times> event list \<Rightarrow> 'r" where
  "res x = fst x"

definition wld :: "'r \<times> 'w \<times> event list \<Rightarrow> 'w" where
  "wld x = fst (snd x)"

definition evs :: "'r \<times> 'w \<times> event list \<Rightarrow> event list" where
  "evs x = snd (snd x)"

definition ok :: "'a \<Rightarrow> ('w, 'a) prog" where
  "ok x = (\<lambda>w. (Inr x, w, []))"

definition raise :: "error \<Rightarrow> ('w, 'a) prog" where
  "raise e = (\<lambda>w. (Inl e, w, []))"

definition fin :: "'a \<Rightarrow> ('w, 'a) total" where
  "fin x = (\<lambda>w. (x, w, []))"

definition bind :: "('w, 'a) prog \<Rightarrow> ('a \<Rightarrow> ('w, 'b) prog) \<Rightarrow> ('w, 'b) prog" where
  "bind m f = (\<lambda>w. case m w of
       (Inl e, w1, es) \<Rightarrow> (Inl e, w1, es)
     | (Inr x, w1, es) \<Rightarrow> (case f x w1 of (r, w2, es2) \<Rightarrow> (r, w2, es @ es2)))"

definition andThen :: "('w, 'a) total \<Rightarrow> ('a \<Rightarrow> ('w, 'b) total) \<Rightarrow> ('w, 'b) total" where
  "andThen m f = (\<lambda>w. case m w of
       (x, w1, es) \<Rightarrow> (case f x w1 of (r, w2, es2) \<Rightarrow> (r, w2, es @ es2)))"

definition try_catch :: "('w, 'a) prog \<Rightarrow> (error \<Rightarrow> ('w, 'a) total) \<Rightarrow> ('w, 'a) total" where
  "try_catch m h = (\<lambda>w. case m w of
       (Inl e, w1, es) \<Rightarrow> (case h e w1 of (r, w2, es2) \<Rightarrow> (r, w2, es @ es2))
     | (Inr x, w1, es) \<Rightarrow> (x, w1, es))"

definition recover :: "('w, 'a) prog \<Rightarrow> (error \<Rightarrow> ('w, 'a) prog) \<Rightarrow> ('w, 'a) prog" where
  "recover m h = (\<lambda>w. case m w of
       (Inl e, w1, es) \<Rightarrow> (case h e w1 of (r, w2, es2) \<Rightarrow> (r, w2, es @ es2))
     | (Inr x, w1, es) \<Rightarrow> (Inr x, w1, es))"

definition lift :: "('w, 'a) total \<Rightarrow> ('w, 'a) prog" where
  "lift m = (\<lambda>w. case m w of (x, w1, es) \<Rightarrow> (Inr x, w1, es))"

definition call :: "op \<Rightarrow> ('w \<Rightarrow> (error + 'a) \<times> 'w) \<Rightarrow> ('w, 'a) prog" where
  "call c f = (\<lambda>w. case f w of (r, w1) \<Rightarrow> (r, w1, [Ev c (\<not> isl r)]))"

definition clock :: "('w \<Rightarrow> 'a \<times> 'w) \<Rightarrow> ('w, 'a) prog" where
  "clock f = (\<lambda>w. case f w of (x, w1) \<Rightarrow> (Inr x, w1, []))"

definition mark :: "event \<Rightarrow> ('w, unit) total" where
  "mark e = (\<lambda>w. ((), w, [e]))"

section \<open>Strings as JavaScript handles them\<close>

text \<open>
  Strings are lists of characters. \<^verbatim>\<open>trim\<close> strips white space at both ends (the ASCII
  white space: git quotes every byte beyond ASCII in the names it prints),
  \<^verbatim>\<open>split('\n')\<close> never returns an empty array, \<^verbatim>\<open>toLowerCase\<close> matters here on the
  letters A to Z only, \<^verbatim>\<open>replace\<close> with a string pattern replaces the first occurrence.
\<close>

definition nl :: char where
  "nl = CHR 0x0A"

definition is_space :: "char \<Rightarrow> bool" where
  "is_space c = (c = CHR 0x20 \<or> c = CHR 0x09 \<or> c = CHR 0x0A \<or> c = CHR 0x0B
     \<or> c = CHR 0x0C \<or> c = CHR 0x0D)"

definition trim :: "string \<Rightarrow> string" where
  "trim s = rev (dropWhile is_space (rev (dropWhile is_space s)))"

fun split_nl :: "string \<Rightarrow> string list" where
  "split_nl [] = [[]]"
| "split_nl (c # cs) =
     (if c = nl then [] # split_nl cs
      else (case split_nl cs of [] \<Rightarrow> [[c]] | x # xs \<Rightarrow> (c # x) # xs))"

definition lower_char :: "char \<Rightarrow> char" where
  "lower_char c =
     (case map_of (zip ''ABCDEFGHIJKLMNOPQRSTUVWXYZ'' ''abcdefghijklmnopqrstuvwxyz'') c of
        None \<Rightarrow> c | Some d \<Rightarrow> d)"

definition toLowerCase :: "string \<Rightarrow> string" where
  "toLowerCase s = map lower_char s"

definition startsWith :: "string \<Rightarrow> string \<Rightarrow> bool" where
  "startsWith s p = (take (length p) s = p)"

fun replace_first :: "string \<Rightarrow> string \<Rightarrow> string \<Rightarrow> string" where
  "replace_first pat rep [] = (if pat = [] then rep else [])"
| "replace_first pat rep (c # cs) =
     (if startsWith (c # cs) pat then rep @ drop (length pat) (c # cs)
      else c # replace_first pat rep cs)"

text \<open>
  \<^verbatim>\<open>path.join\<close> of two strings, as Node's POSIX implementation has it: the non-empty
  arguments are joined with a slash and the result is normalised (empty and \<^verbatim>\<open>.\<close>
  segments dropped, \<^verbatim>\<open>..\<close> resolved, a trailing slash kept).
\<close>

fun split_on :: "char \<Rightarrow> string \<Rightarrow> string list" where
  "split_on d [] = [[]]"
| "split_on d (c # cs) =
     (if c = d then [] # split_on d cs
      else (case split_on d cs of [] \<Rightarrow> [[c]] | x # xs \<Rightarrow> (c # x) # xs))"

fun normalizeString :: "bool \<Rightarrow> string list \<Rightarrow> string list \<Rightarrow> string list" where
  "normalizeString allowAboveRoot acc [] = rev acc"
| "normalizeString allowAboveRoot acc (seg # segs) =
     (if seg = [] \<or> seg = ''.'' then normalizeString allowAboveRoot acc segs
      else if seg = ''..'' then
        (case acc of
           [] \<Rightarrow> normalizeString allowAboveRoot (if allowAboveRoot then [seg] else []) segs
         | a # before \<Rightarrow>
             if a = ''..'' then
               normalizeString allowAboveRoot (if allowAboveRoot then seg # acc else acc) segs
             else normalizeString allowAboveRoot before segs)
      else normalizeString allowAboveRoot (seg # acc) segs)"

fun join_slash :: "string list \<Rightarrow> string" where
  "join_slash [] = []"
| "join_slash [seg] = seg"
| "join_slash (seg # segs) = seg @ ''/'' @ join_slash segs"

definition path_normalize :: "string \<Rightarrow> string" where
  "path_normalize p =
     (if p = [] then ''.''
      else
        (let isAbsolute = (hd p = CHR ''/'');
             trailingSeparator = (last p = CHR ''/'');
             q = join_slash (normalizeString (\<not> isAbsolute) [] (split_on (CHR ''/'') p))
         in if q = [] then (if isAbsolute then ''/'' else if trailingSeparator then ''./'' else ''.'')
            else (let q1 = (if trailingSeparator then q @ ''/'' else q)
                  in if isAbsolute then ''/'' @ q1 else q1)))"

definition path_join :: "string \<Rightarrow> string \<Rightarrow> string" where
  "path_join a b =
     (let joined = (if a = [] then b else if b = [] then a else a @ ''/'' @ b)
      in if joined = [] then ''.'' else path_normalize joined)"

section \<open>isRepoEmpty\<close>

text \<open>
  \<^verbatim>\<open>
  async function isRepoEmpty(repoPath) {
    try {
      const git = simpleGit(repoPath);
      const log = await git.log();
      if (log.total === 0) return true;
      if (log.total === 1) {
        const files = await git.raw(['ls-tree', '--name-only', 'HEAD']);
        const fileList = files.trim().split('\n');
        if (fileList.length === 1 && fileList[0].toLowerCase().startsWith('readme')) {
          return true;
        }
      }
      return false;
    } catch (err) {
      return false;
    }
  }
  \<close>
\<close>

definition ls_tree_args :: "string list" where
  "ls_tree_args = [''ls-tree'', ''--name-only'', ''HEAD'']"

definition isRepoEmpty :: "'w env \<Rightarrow> string \<Rightarrow> ('w, bool) total" where
  "isRepoEmpty env repoPath =
     andThen (mark (Enter ''isRepoEmpty'' repoPath)) (\<lambda>_.
     try_catch
       (bind (call (Git repoPath Log) (git_log env repoPath)) (\<lambda>total.
          if total = 0 then ok True
          else if total = 1 then
            bind (call (Git repoPath (Raw ls_tree_args)) (git_raw env repoPath ls_tree_args))
              (\<lambda>files.
                 let fileList = split_nl (trim files) in
                 if length fileList = 1 \<and> startsWith (toLowerCase (fileList ! 0)) ''readme''
                 then ok True else ok False)
          else ok False))
       (\<lambda>err. fin False))"

text \<open>
  What \<^verbatim>\<open>git ls-tree --name-only HEAD\<close> prints for a tree whose entries have the given
  names: one name per line. A name is plain when it is not empty, holds no newline and
  neither starts nor ends with white space (the names \<^verbatim>\<open>trim\<close> and \<^verbatim>\<open>split\<close> leave as
  they are).
\<close>

definition ls_tree_output :: "string list \<Rightarrow> string" where
  "ls_tree_output names = concat (map (\<lambda>n. n @ [nl]) names)"

definition plain_name :: "string \<Rightarrow> bool" where
  "plain_name n = (n \<noteq> [] \<and> nl \<notin> set n \<and> \<not> is_space (hd n) \<and> \<not> is_space (last n))"

section \<open>Conflict resolution helpers\<close>

text \<open>
  \<^verbatim>\<open>
  async function getFileHash(filePath) {
    try { const content = await fs.readFile(filePath);
          return crypto.createHash('md5').update(content).digest('hex');
    } catch (err) { return null; } }
  async function getFileMtime(filePath) {
    try { const stat = await fs.stat(filePath); return stat.mtimeMs;
    } catch (err) { return 0; } }
  async function backupFile(filePath, suffix) {
    try { const backupPath = `${filePath}.${suffix}`;
          await fs.copyFile(filePath, backupPath); return backupPath;
    } catch (err) { return null; } }
  \<close>
\<close>

definition getFileHash :: "'w env \<Rightarrow> string \<Rightarrow> ('w, string option) total" where
  "getFileHash env filePath =
     try_catch
       (bind (call (FsReadFile filePath) (fs_readFile env filePath)) (\<lambda>content.
          ok (Some (md5_hex env content))))
       (\<lambda>err. fin None)"

definition getFileMtime :: "'w env \<Rightarrow> string \<Rightarrow> ('w, real) total" where
  "getFileMtime env filePath =
     try_catch
       (bind (call (FsStat filePath) (fs_stat env filePath)) (\<lambda>mtimeMs. ok mtimeMs))
       (\<lambda>err. fin 0)"

definition backupFile :: "'w env \<Rightarrow> string \<Rightarrow> string \<Rightarrow> ('w, string option) total" where
  "backupFile env filePath suffix =
     (let backupPath = filePath @ ''.'' @ suffix in
      try_catch
        (bind (call (FsCopyFile filePath backupPath) (fs_copyFile env filePath backupPath))
           (\<lambda>_. ok (Some backupPath)))
        (\<lambda>err. fin None))"

section \<open>detectConflicts\<close>

record conflict =
  "file" :: string
  path :: string
  localMtime :: real
  localHash :: "string option"

record detection =
  hasConflicts :: bool
  conflicts :: "conflict list"

definition no_conflicts :: detection where
  "no_conflicts = \<lparr>hasConflicts = False, conflicts = []\<rparr>"

text \<open>The loop over \<^verbatim>\<open>localChanges\<close> (lines 146 to 159), which fingerprints every
  locally changed file that the remote diff names too.\<close>

fun collectConflicts :: "'w env \<Rightarrow> string \<Rightarrow> string list \<Rightarrow> string list \<Rightarrow> ('w, conflict list) total" where
  "collectConflicts env repoPath remoteChanges [] = fin []"
| "collectConflicts env repoPath remoteChanges (localFile # rest) =
     (if localFile \<in> set remoteChanges then
        (let fullPath = path_join repoPath localFile in
         andThen (getFileMtime env fullPath) (\<lambda>mtime.
         andThen (getFileHash env fullPath) (\<lambda>hash.
         andThen (collectConflicts env repoPath remoteChanges rest) (\<lambda>others.
         fin (\<lparr>file = localFile, path = fullPath, localMtime = mtime, localHash = hash\<rparr>
              # others)))))
      else collectConflicts env repoPath remoteChanges rest)"

definition diff_args :: "string \<Rightarrow> string list" where
  "diff_args currentBranch = [currentBranch, ''origin/'' @ currentBranch, ''--name-only'']"

definition detectConflicts :: "'w env \<Rightarrow> string \<Rightarrow> ('w, detection) total" where
  "detectConflicts env repoPath =
     try_catch
       (bind (call (Git repoPath Status) (git_status env repoPath)) (\<lambda>status.
        let currentBranch = current status in
        bind (call (Git repoPath Fetch) (git_fetch env repoPath)) (\<lambda>_.
        let localChanges = files status in
        if length localChanges = 0 then ok no_conflicts
        else
          bind (call (Git repoPath (Diff (diff_args currentBranch)))
                  (git_diff env repoPath (diff_args currentBranch))) (\<lambda>remoteDiff.
          let remoteChanges = filter (\<lambda>f. trim f \<noteq> []) (split_nl remoteDiff) in
          if length remoteChanges = 0 then ok no_conflicts
          else
            bind (lift (collectConflicts env repoPath remoteChanges localChanges)) (\<lambda>found.
            ok \<lparr>hasConflicts = (length found > 0), conflicts = found\<rparr>)))))
       (\<lambda>err. fin no_conflicts)"

section \<open>resolveConflicts\<close>

datatype outcome = Identical | LocalNewer | RemoteNewer | Skipped | Failed

record resolution =
  rfile :: string
  resolution :: outcome
  reason :: "string option"
  localBackup :: "string option"
  remoteMtime :: "real option"
  rlocalMtime :: "real option"

definition timestampOf :: "string \<Rightarrow> string" where
  "timestampOf isoString = map (\<lambda>c. if c = CHR '':'' \<or> c = CHR ''.'' then CHR ''-'' else c) isoString"

definition stash_args :: "string \<Rightarrow> string list" where
  "stash_args timestamp =
     [''push'', ''-u'', ''-m'', ''Auto-stash for conflict resolution '' @ timestamp]"

definition skippedResolution :: "conflict \<Rightarrow> resolution" where
  "skippedResolution c = \<lparr>rfile = file c, resolution = Skipped, reason = Some ''backup failed'',
     localBackup = None, remoteMtime = None, rlocalMtime = None\<rparr>"

definition failedResolution :: "conflict \<Rightarrow> error \<Rightarrow> resolution" where
  "failedResolution c err = \<lparr>rfile = file c, resolution = Failed, reason = Some (message err),
     localBackup = None, remoteMtime = None, rlocalMtime = None\<rparr>"

definition identicalResolution :: "conflict \<Rightarrow> resolution" where
  "identicalResolution c = \<lparr>rfile = file c, resolution = Identical, reason = None,
     localBackup = None, remoteMtime = None, rlocalMtime = None\<rparr>"

definition keptResolution :: "conflict \<Rightarrow> outcome \<Rightarrow> string \<Rightarrow> real \<Rightarrow> resolution" where
  "keptResolution c which backup rm = \<lparr>rfile = file c, resolution = which, reason = None,
     localBackup = Some backup, remoteMtime = Some rm, rlocalMtime = Some (localMtime c)\<rparr>"

text \<open>
  Steps 4 and 5 of the loop body (lines 196 to 234), run once the pull has returned: the
  comparison of modification times comes first, the comparison of digests second.
\<close>

definition decideConflict :: "'w env \<Rightarrow> conflict \<Rightarrow> string \<Rightarrow> string \<Rightarrow> ('w, resolution) prog" where
  "decideConflict env c timestamp backup =
     bind (lift (getFileMtime env (path c))) (\<lambda>rm.
     bind (lift (getFileHash env (path c))) (\<lambda>remoteHash.
     if localMtime c > rm then
       bind (call (FsCopyFile backup (path c)) (fs_copyFile env backup (path c))) (\<lambda>_.
       bind (lift (backupFile env (path c) (''remote.'' @ timestamp))) (\<lambda>_.
       ok (keptResolution c LocalNewer backup rm)))
     else if localHash c = remoteHash then
       ok (identicalResolution c)
     else
       bind (lift (backupFile env (path c) (''remote.'' @ timestamp))) (\<lambda>_.
       ok (keptResolution c RemoteNewer backup rm))))"

text \<open>
  Steps 1 to 5 (lines 178 to 234). The result says which resolution was pushed onto
  \<^verbatim>\<open>resolutions\<close> and whether the body goes on to stage the file: the \<^verbatim>\<open>continue\<close>
  after a failed local backup skips the staging.
\<close>

definition resolveSteps :: "'w env \<Rightarrow> string \<Rightarrow> conflict \<Rightarrow> ('w, resolution \<times> bool) prog" where
  "resolveSteps env repoPath c =
     bind (clock (toISOString env)) (\<lambda>isoString.
     let timestamp = timestampOf isoString in
     bind (lift (backupFile env (path c) (''local.'' @ timestamp))) (\<lambda>made.
     case made of
       None \<Rightarrow> ok (skippedResolution c, False)
     | Some backup \<Rightarrow>
         bind (call (Git repoPath (Stash (stash_args timestamp)))
                 (git_stash env repoPath (stash_args timestamp))) (\<lambda>_.
         bind (call (Git repoPath Pull) (git_pull env repoPath)) (\<lambda>_.
         bind (decideConflict env c timestamp backup) (\<lambda>r.
         ok (r, True))))))"

text \<open>
  One iteration of the loop with its \<^verbatim>\<open>catch\<close>. A resolution pushed before
  \<^verbatim>\<open>git.add\<close> raises stays in the array, and the handler pushes a \<^verbatim>\<open>failed\<close> one
  after it.
\<close>

definition resolveOne :: "'w env \<Rightarrow> string \<Rightarrow> conflict \<Rightarrow> ('w, resolution list) total" where
  "resolveOne env repoPath c = (\<lambda>w.
     case resolveSteps env repoPath c w of
       (Inl err, w1, es) \<Rightarrow> ([failedResolution c err], w1, es)
     | (Inr (r, staging), w1, es) \<Rightarrow>
         if \<not> staging then ([r], w1, es)
         else (case call (Git repoPath (Add (file c))) (git_add env repoPath (file c)) w1 of
                 (Inl err, w2, es2) \<Rightarrow> ([r, failedResolution c err], w2, es @ es2)
               | (Inr _, w2, es2) \<Rightarrow> ([r], w2, es @ es2)))"

fun resolveConflicts :: "'w env \<Rightarrow> string \<Rightarrow> conflict list \<Rightarrow> ('w, resolution list) total" where
  "resolveConflicts env repoPath [] = fin []"
| "resolveConflicts env repoPath (c # cs) =
     andThen (resolveOne env repoPath c) (\<lambda>rs.
     andThen (resolveConflicts env repoPath cs) (\<lambda>others. fin (rs @ others)))"

section \<open>pullRepoSafe\<close>

text \<open>The three shapes of the object \<^verbatim>\<open>pullRepoSafe\<close> returns: the conflict batch
  (pulled, conflicts, resolved, skipped, failed; the strategy is a constant), a pull with
  its file count, and \<^verbatim>\<open>{ pulled: false, reason }\<close>.\<close>

datatype pull_outcome =
    ConflictBatch bool nat nat nat nat
  | PulledFiles nat
  | NotPulled string

fun pulled :: "pull_outcome \<Rightarrow> bool" where
  "pulled (ConflictBatch p _ _ _ _) = p"
| "pulled (PulledFiles _) = True"
| "pulled (NotPulled _) = False"

fun pull_reason :: "pull_outcome \<Rightarrow> string option" where
  "pull_reason (NotPulled r) = Some r"
| "pull_reason _ = None"

fun pull_resolved :: "pull_outcome \<Rightarrow> nat" where
  "pull_resolved (ConflictBatch _ _ r _ _) = r"
| "pull_resolved _ = 0"

definition batchResult :: "conflict list \<Rightarrow> resolution list \<Rightarrow> pull_outcome" where
  "batchResult cs resolutions =
     (let resolvedCount =
            length (filter (\<lambda>r. resolution r \<noteq> Failed \<and> resolution r \<noteq> Skipped) resolutions);
          failedCount = length (filter (\<lambda>r. resolution r = Failed) resolutions);
          skippedCount = length (filter (\<lambda>r. resolution r = Skipped) resolutions)
      in ConflictBatch (resolvedCount > 0 \<or> skippedCount > 0) (length cs)
           resolvedCount skippedCount failedCount)"

definition plain_stash_args :: "string list" where
  "plain_stash_args = [''push'', ''-u'', ''-m'', ''Auto-stash before pull'']"

definition pullRepoSafe :: "'w env \<Rightarrow> string \<Rightarrow> ('w, pull_outcome) total" where
  "pullRepoSafe env repoPath =
     andThen (mark (Enter ''pullRepoSafe'' repoPath)) (\<lambda>_.
     try_catch
       (bind (call (Git repoPath Status) (git_status env repoPath)) (\<lambda>status.
        bind (lift (detectConflicts env repoPath)) (\<lambda>conflictCheck.
        if hasConflicts conflictCheck then
          bind (lift (resolveConflicts env repoPath (conflicts conflictCheck))) (\<lambda>resolutions.
          ok (batchResult (conflicts conflictCheck) resolutions))
        else
          bind (if length (files status) > 0
                then call (Git repoPath (Stash plain_stash_args))
                       (git_stash env repoPath plain_stash_args)
                else ok ()) (\<lambda>_.
          bind (call (Git repoPath Pull) (git_pull env repoPath)) (\<lambda>result.
          case result of
            None \<Rightarrow> ok (NotPulled ''up to date'')
          | Some fs \<Rightarrow>
              if length fs > 0 then ok (PulledFiles (length fs))
              else ok (NotPulled ''up to date''))))))
       (\<lambda>err. fin (NotPulled (message err))))"

section \<open>pushRepoSafe\<close>

datatype push_outcome =
    Pushed nat bool
  | NotPushed string "pull_outcome option"

fun pushed :: "push_outcome \<Rightarrow> bool" where
  "pushed (Pushed _ _) = True"
| "pushed (NotPushed _ _) = False"

fun retried :: "push_outcome \<Rightarrow> bool" where
  "retried (Pushed _ r) = r"
| "retried (NotPushed _ _) = False"

text \<open>
  Phase 3 (lines 341 to 359): the push, and in its \<^verbatim>\<open>catch\<close> one run of
  \<^verbatim>\<open>pullRepoSafe\<close> followed by at most one more push. What is raised here (the second
  push's rejection, or \<^verbatim>\<open>'Push rejected and pull failed'\<close>) goes to the outer handler.
\<close>

definition pushWithRetry :: "'w env \<Rightarrow> string \<Rightarrow> nat \<Rightarrow> ('w, push_outcome) prog" where
  "pushWithRetry env repoPath n =
     recover
       (bind (call (Git repoPath Push) (git_push env repoPath)) (\<lambda>_. ok (Pushed n False)))
       (\<lambda>pushErr.
          bind (lift (pullRepoSafe env repoPath)) (\<lambda>pullResult.
          if pulled pullResult \<or> pull_reason pullResult = Some ''up to date'' then
            bind (call (Git repoPath Push) (git_push env repoPath)) (\<lambda>_. ok (Pushed n True))
          else raise (Error ''Push rejected and pull failed'')))"

text \<open>Phase 1 (lines 318 to 331): \<open>Some\<close> of the early result when the pull before the
  push failed, \<open>None\<close> to go on.\<close>

definition pullFirst :: "'w env \<Rightarrow> string \<Rightarrow> status_result \<Rightarrow> ('w, push_outcome option) prog" where
  "pullFirst env repoPath status =
     bind (call (Git repoPath Fetch) (git_fetch env repoPath)) (\<lambda>_.
     bind (call (Git repoPath (Revparse [''HEAD'']))
             (git_revparse env repoPath [''HEAD''])) (\<lambda>localCommit.
     bind (call (Git repoPath (Revparse [''origin/'' @ current status]))
             (git_revparse env repoPath [''origin/'' @ current status])) (\<lambda>remoteCommit.
     if localCommit \<noteq> remoteCommit then
       bind (lift (pullRepoSafe env repoPath)) (\<lambda>pullResult.
       if \<not> pulled pullResult \<and> pull_reason pullResult \<noteq> Some ''up to date''
       then ok (Some (NotPushed ''pull failed before push'' (Some pullResult)))
       else ok None)
     else ok None)))"

text \<open>Phase 2 (lines 334 to 338): stage everything and commit with the dated message.\<close>

definition commitAll :: "'w env \<Rightarrow> string \<Rightarrow> string \<Rightarrow> ('w, unit) prog" where
  "commitAll env repoPath commitMessage =
     bind (call (Git repoPath (Add ''.'')) (git_add env repoPath ''.'')) (\<lambda>_.
     bind (clock (toLocaleDateString env)) (\<lambda>date.
     let msg = replace_first ''{date}'' date commitMessage in
     call (Git repoPath (Commit msg)) (git_commit env repoPath msg)))"

definition pushRepoSafe :: "'w env \<Rightarrow> string \<Rightarrow> string \<Rightarrow> ('w, push_outcome) total" where
  "pushRepoSafe env repoPath commitMessage =
     andThen (mark (Enter ''pushRepoSafe'' repoPath)) (\<lambda>_.
     try_catch
       (bind (call (Git repoPath Status) (git_status env repoPath)) (\<lambda>status.
        if length (files status) = 0 then ok (NotPushed ''no changes'' None)
        else
          bind (pullFirst env repoPath status) (\<lambda>early.
          case early of
            Some r \<Rightarrow> ok r
          | None \<Rightarrow>
              bind (commitAll env repoPath commitMessage) (\<lambda>_.
              pushWithRetry env repoPath (length (files status))))))
       (\<lambda>err. fin (NotPushed (message err) None)))"

text \<open>
  Lines 308 to 338 on their own, for speaking of the moment the push starts: everything up
  to and including the commit. The result is the early answer (\<open>Inl\<close>: no changes, or
  the pull before the push failed) or the number of changed files with which phase 3 is
  entered (\<open>Inr\<close>).
\<close>

definition beforePush :: "'w env \<Rightarrow> string \<Rightarrow> string \<Rightarrow> ('w, push_outcome + nat) prog" where
  "beforePush env repoPath commitMessage =
     bind (call (Git repoPath Status) (git_status env repoPath)) (\<lambda>status.
     if length (files status) = 0 then ok (Inl (NotPushed ''no changes'' None))
     else
       bind (pullFirst env repoPath status) (\<lambda>early.
       case early of
         Some r \<Rightarrow> ok (Inl r)
       | None \<Rightarrow>
           bind (commitAll env repoPath commitMessage) (\<lambda>_.
           ok (Inr (length (files status))))))"

section \<open>The orchestrator\<close>

text \<open>\<^verbatim>\<open>cloneRepo\<close>, \<^verbatim>\<open>deleteEmptyRepo\<close> and \<^verbatim>\<open>deleteLocalRepo\<close>, each with its own
  \<^verbatim>\<open>try ... catch\<close>; the last one only logs.\<close>

datatype clone_outcome = Cloned | NotCloned string

fun cloned :: "clone_outcome \<Rightarrow> bool" where
  "cloned Cloned = True"
| "cloned (NotCloned _) = False"

definition cloneRepo :: "'w env \<Rightarrow> string \<Rightarrow> string \<Rightarrow> string \<Rightarrow> ('w, clone_outcome) total" where
  "cloneRepo env repoUrl targetDir repoName =
     andThen (mark (Enter ''cloneRepo'' repoName)) (\<lambda>_.
     try_catch
       (bind (call (GitClone repoUrl targetDir) (git_clone env repoUrl targetDir)) (\<lambda>_.
          ok Cloned))
       (\<lambda>err. fin (NotCloned (message err))))"

definition deleteEmptyRepo :: "'w env \<Rightarrow> string \<Rightarrow> string \<Rightarrow> bool \<Rightarrow> ('w, bool) total" where
  "deleteEmptyRepo env repoName user dry =
     (if dry then fin False
      else
        (let endpoint = ''/repos/'' @ user @ ''/'' @ repoName in
         try_catch
           (bind (call (GithubApi endpoint ''DELETE'') (githubApi env endpoint ''DELETE''))
              (\<lambda>_. ok True))
           (\<lambda>err. fin False)))"

definition deleteLocalRepo :: "'w env \<Rightarrow> string \<Rightarrow> bool \<Rightarrow> ('w, bool) total" where
  "deleteLocalRepo env repoPath dry = fin False"

record gh_repo =
  name :: string
  clone_url :: string

record config =
  searchDirs :: "string list"
  username :: string
  deleteEmptyRepos :: bool
  commitTemplate :: string
  dryRun :: bool

record results =
  res_pulled :: nat
  res_pushed :: nat
  res_cloned :: nat
  res_emptyDeleted :: nat
  res_upToDate :: nat
  res_failed :: nat
  res_conflictsResolved :: nat

text \<open>
  The state of \<^verbatim>\<open>main\<close> from line 544 on: the counters, \<^verbatim>\<open>currentOp\<close>, and the
  \<^verbatim>\<open>localRepos\<close> map. A JavaScript \<^verbatim>\<open>Map\<close> iterates in insertion order, so the map is
  a list of (lower-cased name, path) pairs with distinct keys; \<^verbatim>\<open>get\<close> is \<open>map_of\<close>,
  \<^verbatim>\<open>delete\<close> removes the pair with that key.
\<close>

record main_state =
  results :: results
  currentOp :: nat
  localRepos :: "(string \<times> string) list"

definition no_results :: results where
  "no_results = \<lparr>res_pulled = 0, res_pushed = 0, res_cloned = 0, res_emptyDeleted = 0,
     res_upToDate = 0, res_failed = 0, res_conflictsResolved = 0\<rparr>"

definition map_delete :: "string \<Rightarrow> (string \<times> string) list \<Rightarrow> (string \<times> string) list" where
  "map_delete k m = filter (\<lambda>kv. fst kv \<noteq> k) m"

text \<open>Lines 558 to 562 and 588 to 590: how a result moves the counters.\<close>

definition countPull :: "pull_outcome \<Rightarrow> results \<Rightarrow> results" where
  "countPull result rs =
     (let rs1 = (if pulled result then rs\<lparr>res_pulled := res_pulled rs + 1\<rparr>
                 else if pull_reason result = Some ''up to date''
                 then rs\<lparr>res_upToDate := res_upToDate rs + 1\<rparr>
                 else rs\<lparr>res_failed := res_failed rs + 1\<rparr>)
      in if pull_resolved result > 0
         then rs1\<lparr>res_conflictsResolved := res_conflictsResolved rs1 + pull_resolved result\<rparr>
         else rs1)"

fun push_reason :: "push_outcome \<Rightarrow> string option" where
  "push_reason (NotPushed r _) = Some r"
| "push_reason (Pushed _ _) = None"

definition countPush :: "push_outcome \<Rightarrow> results \<Rightarrow> results" where
  "countPush result rs =
     (if pushed result then rs\<lparr>res_pushed := res_pushed rs + 1\<rparr>
      else if push_reason result = Some ''no changes''
      then rs\<lparr>res_upToDate := res_upToDate rs + 1\<rparr>
      else rs\<lparr>res_failed := res_failed rs + 1\<rparr>)"

text \<open>
  The \<^verbatim>\<open>else\<close> branch of phase 3 (lines 566 to 569). \<^verbatim>\<open>config.searchDirs[0]\<close> of an
  empty array is \<^verbatim>\<open>undefined\<close>, on which \<^verbatim>\<open>path.join\<close> raises a TypeError that nothing
  in \<^verbatim>\<open>main\<close> catches.
\<close>

definition cloneMissing :: "'w env \<Rightarrow> config \<Rightarrow> gh_repo \<Rightarrow> results \<Rightarrow> ('w, results) prog" where
  "cloneMissing env cfg ghRepo rs =
     (case searchDirs cfg of
        [] \<Rightarrow> raise (Error ''The path argument must be of type string. Received undefined'')
      | dir0 # _ \<Rightarrow>
          (let targetDir = path_join dir0 (name ghRepo) in
           bind (lift (cloneRepo env (clone_url ghRepo) targetDir (name ghRepo))) (\<lambda>result.
           ok (if cloned result then rs\<lparr>res_cloned := res_cloned rs + 1\<rparr>
               else rs\<lparr>res_failed := res_failed rs + 1\<rparr>))))"

text \<open>One iteration of the phase 3 loop (lines 550 to 570). \<^verbatim>\<open>if (localPath)\<close> is false
  for a missing key and for the empty string.\<close>

definition pullOrClone :: "'w env \<Rightarrow> config \<Rightarrow> nat \<Rightarrow> gh_repo \<Rightarrow> main_state \<Rightarrow> ('w, main_state) prog" where
  "pullOrClone env cfg totalOps ghRepo st =
     (let cur = currentOp st + 1 in
      bind (lift (mark (Progress cur totalOps))) (\<lambda>_.
      let repoName = toLowerCase (name ghRepo);
          found = map_of (localRepos st) repoName
      in if found \<noteq> None \<and> found \<noteq> Some [] then
           bind (lift (pullRepoSafe env (case found of Some localPath \<Rightarrow> localPath | None \<Rightarrow> [])))
             (\<lambda>result.
           ok (st\<lparr>results := countPull result (results st), currentOp := cur,
                  localRepos := map_delete repoName (localRepos st)\<rparr>))
         else
           bind (cloneMissing env cfg ghRepo (results st)) (\<lambda>rs.
           ok (st\<lparr>results := rs, currentOp := cur\<rparr>))))"

fun phase3 :: "'w env \<Rightarrow> config \<Rightarrow> nat \<Rightarrow> gh_repo list \<Rightarrow> main_state \<Rightarrow> ('w, main_state) prog" where
  "phase3 env cfg totalOps [] st = ok st"
| "phase3 env cfg totalOps (ghRepo # rest) st =
     bind (pullOrClone env cfg totalOps ghRepo st) (\<lambda>st1. phase3 env cfg totalOps rest st1)"

text \<open>One iteration of the phase 4 loop (lines 576 to 591), over an entry of what is left
  of \<^verbatim>\<open>localRepos\<close>.\<close>

definition retireOrPush :: "'w env \<Rightarrow> config \<Rightarrow> nat \<Rightarrow> string \<times> string \<Rightarrow> main_state \<Rightarrow> ('w, main_state) total" where
  "retireOrPush env cfg totalOps entry st =
     (let repoName = fst entry; repoPath = snd entry; cur = currentOp st + 1 in
      andThen (mark (Progress cur totalOps)) (\<lambda>_.
      andThen (isRepoEmpty env repoPath) (\<lambda>isEmpty.
      if isEmpty \<and> deleteEmptyRepos cfg then
        andThen (deleteLocalRepo env repoPath (dryRun cfg)) (\<lambda>_.
        andThen (deleteEmptyRepo env repoName (username cfg) (dryRun cfg)) (\<lambda>deleted.
        fin (st\<lparr>results := (if deleted
                   then (results st)\<lparr>res_emptyDeleted := res_emptyDeleted (results st) + 1\<rparr>
                   else results st),
                 currentOp := cur\<rparr>)))
      else
        andThen (pushRepoSafe env repoPath (commitTemplate cfg)) (\<lambda>result.
        fin (st\<lparr>results := countPush result (results st), currentOp := cur\<rparr>)))))"

fun phase4 :: "'w env \<Rightarrow> config \<Rightarrow> nat \<Rightarrow> (string \<times> string) list \<Rightarrow> main_state \<Rightarrow> ('w, main_state) total" where
  "phase4 env cfg totalOps [] st = fin st"
| "phase4 env cfg totalOps (entry # rest) st =
     andThen (retireOrPush env cfg totalOps entry st) (\<lambda>st1. phase4 env cfg totalOps rest st1)"

text \<open>Lines 544 to 592 of \<^verbatim>\<open>main\<close>, given the two inventories.\<close>

definition reconcile :: "'w env \<Rightarrow> config \<Rightarrow> gh_repo list \<Rightarrow> (string \<times> string) list \<Rightarrow> ('w, main_state) prog" where
  "reconcile env cfg githubRepos locals =
     (let totalOps = length githubRepos + length locals;
          st0 = \<lparr>results = no_results, currentOp = 0, localRepos = locals\<rparr>
      in bind (phase3 env cfg totalOps githubRepos st0) (\<lambda>st1.
         lift (phase4 env cfg totalOps (localRepos st1) st1)))"

section \<open>A sample environment\<close>

text \<open>
  For evaluating runs: a small world with a disk (path to content and modification time),
  the committed content of the tracked files, the list of files \<^verbatim>\<open>status\<close> reports,
  the answer of the name-only diff, the files the next pull brings, a script of push
  outcomes, and the commits made. It behaves as git does where the runs depend on it:
  \<^item> a stash with \<^verbatim>\<open>-u\<close> puts the committed content back into the tracked files and
    takes the untracked files off the disk, unless the repository ignores them
    (\<open>ignoresBackups\<close>: a \<^verbatim>\<open>.gitignore\<close> that covers the backup names);
  \<^item> a pull writes the incoming files to the disk and to the committed content;
  \<^item> a commit with nothing to commit succeeds and records nothing;
  \<^item> \<^verbatim>\<open>git log\<close> raises on a repository without a commit;
  \<^item> \<^verbatim>\<open>ls-tree --name-only HEAD\<close> prints the top-level entries of the tree, a
    directory as one entry.
  The digest of a content is the content itself.
\<close>

record sim =
  disk :: "string \<Rightarrow> (string \<times> real) option"
  committed :: "(string \<times> string) list"
  ignoresBackups :: bool
  changed :: "string list"
  diffOut :: "string option"
  incoming :: "(string \<times> string \<times> real) list"
  fetchOk :: bool
  heads :: "string \<times> string"
  pushScript :: "bool list"
  commits :: "string list"
  logTotal :: nat
  tree :: "string list"
  nowMs :: real

definition writeFiles :: "(string \<times> string \<times> real) list \<Rightarrow> (string \<Rightarrow> (string \<times> real) option) \<Rightarrow> (string \<Rightarrow> (string \<times> real) option)" where
  "writeFiles fs d = fold (\<lambda>f d1. d1(fst f \<mapsto> snd f)) fs d"

definition sim_stash :: "string list \<Rightarrow> sim \<Rightarrow> (error + unit) \<times> sim" where
  "sim_stash args w =
     (Inr (),
      w\<lparr>disk := (\<lambda>p. case map_of (committed w) p of
                    Some c \<Rightarrow>
                      (if map_option fst (disk w p) = Some c then disk w p
                       else Some (c, nowMs w))
                  | None \<Rightarrow>
                      (if ''-u'' \<in> set args \<and> \<not> ignoresBackups w then None else disk w p)),
        changed := []\<rparr>)"

definition sim_pull :: "sim \<Rightarrow> (error + string list option) \<times> sim" where
  "sim_pull w =
     (Inr (Some (map fst (incoming w))),
      w\<lparr>disk := writeFiles (incoming w) (disk w),
        committed := map (\<lambda>f. (fst f, fst (snd f))) (incoming w) @ committed w,
        incoming := []\<rparr>)"

definition sim_commit :: "string \<Rightarrow> sim \<Rightarrow> (error + unit) \<times> sim" where
  "sim_commit m w =
     (Inr (), if changed w = [] then w else w\<lparr>commits := commits w @ [m], changed := []\<rparr>)"

definition sim_push :: "sim \<Rightarrow> (error + unit) \<times> sim" where
  "sim_push w = (case pushScript w of
       [] \<Rightarrow> (Inr (), w)
     | b # bs \<Rightarrow> (if b then Inr () else Inl (Error ''rejected''), w\<lparr>pushScript := bs\<rparr>))"

definition sim_copyFile :: "string \<Rightarrow> string \<Rightarrow> sim \<Rightarrow> (error + unit) \<times> sim" where
  "sim_copyFile src dst w = (case disk w src of
       None \<Rightarrow> (Inl (Error ''ENOENT''), w)
     | Some f \<Rightarrow> (Inr (), w\<lparr>disk := (disk w)(dst \<mapsto> (fst f, nowMs w))\<rparr>))"

definition top_level :: "string list \<Rightarrow> string list" where
  "top_level paths = remdups (map (takeWhile (\<lambda>c. c \<noteq> CHR ''/'')) paths)"

definition sim_env :: "sim env" where
  "sim_env = \<lparr>
     git_status = (\<lambda>rp w. (Inr \<lparr>current = ''main'', files = changed w\<rparr>, w)),
     git_fetch = (\<lambda>rp w. (if fetchOk w then Inr () else Inl (Error ''fetch failed''), w)),
     git_diff = (\<lambda>rp args w.
        (case diffOut w of None \<Rightarrow> Inl (Error ''diff failed'') | Some d \<Rightarrow> Inr d, w)),
     git_stash = (\<lambda>rp args w. sim_stash args w),
     git_pull = (\<lambda>rp w. sim_pull w),
     git_add = (\<lambda>rp f w. (Inr (), w)),
     git_commit = (\<lambda>rp m w. sim_commit m w),
     git_push = (\<lambda>rp w. sim_push w),
     git_revparse = (\<lambda>rp args w.
        (Inr (if args = [''HEAD''] then fst (heads w) else snd (heads w)), w)),
     git_log = (\<lambda>rp w.
        (if logTotal w = 0
         then Inl (Error ''fatal: your current branch does not have any commits yet'')
         else Inr (logTotal w), w)),
     git_raw = (\<lambda>rp args w. (Inr (ls_tree_output (top_level (tree w))), w)),
     git_clone = (\<lambda>url dir w. (Inr (), w)),
     githubApi = (\<lambda>endpoint method w. (Inr (), w)),
     fs_readFile = (\<lambda>p w.
        (case disk w p of None \<Rightarrow> Inl (Error ''ENOENT'') | Some f \<Rightarrow> Inr (fst f), w)),
     fs_stat = (\<lambda>p w.
        (case disk w p of None \<Rightarrow> Inl (Error ''ENOENT'') | Some f \<Rightarrow> Inr (snd f), w)),
     fs_copyFile = sim_copyFile,
     md5_hex = (\<lambda>content. content),
     toISOString = (\<lambda>w. (''2026-01-02T03:04:05.678Z'', w)),
     toLocaleDateString = (\<lambda>w. (''1/2/2026'', w))\<rparr>"

definition sim0 :: sim where
  "sim0 = \<lparr>disk = Map.empty, committed = [], ignoresBackups = False, changed = [],
     diffOut = Some [], incoming = [], fetchOk = True, heads = (''c1'', ''c1''),
     pushScript = [], commits = [], logTotal = 2, tree = [], nowMs = 500\<rparr>"

text \<open>Repositories with one commit: only a README; a README and a licence; one directory
  whose name starts with "Readme" holding two sources. And a repository without a commit.\<close>

definition readme_only :: sim where
  "readme_only = sim0\<lparr>logTotal := 1, tree := [''README.md'']\<rparr>"

definition readme_license :: sim where
  "readme_license = sim0\<lparr>logTotal := 1, tree := [''README.md'', ''LICENSE'']\<rparr>"

definition readme_dir :: sim where
  "readme_dir = sim0\<lparr>logTotal := 1, tree := [''Readme-src/main.c'', ''Readme-src/util.c'']\<rparr>"

definition unborn :: sim where
  "unborn = sim0\<lparr>logTotal := 0\<rparr>"

section \<open>Reading the journal\<close>

text \<open>\<open>only P m\<close>: whatever the world, \<open>m\<close> produces only events that satisfy \<open>P\<close>.\<close>

definition only :: "(event \<Rightarrow> bool) \<Rightarrow> ('w \<Rightarrow> 'r \<times> 'w \<times> event list) \<Rightarrow> bool" where
  "only P m = (\<forall>w. list_all P (evs (m w)))"



text \<open>The events the Safe Puller can produce: its own entry, and calls of the git
  commands status, fetch, diff, stash, pull and add and of the three file-system
  functions.\<close>

fun puller_op :: "op \<Rightarrow> bool" where
  "puller_op (Git _ Status) = True"
| "puller_op (Git _ Fetch) = True"
| "puller_op (Git _ (Diff _)) = True"
| "puller_op (Git _ (Stash _)) = True"
| "puller_op (Git _ Pull) = True"
| "puller_op (Git _ (Add _)) = True"
| "puller_op (FsReadFile _) = True"
| "puller_op (FsStat _) = True"
| "puller_op (FsCopyFile _ _) = True"
| "puller_op _ = False"

fun puller_call :: "event \<Rightarrow> bool" where
  "puller_call (Ev c _) = puller_op c"
| "puller_call _ = False"

fun is_pull_entry :: "event \<Rightarrow> bool" where
  "is_pull_entry (Enter f _) = (f = ''pullRepoSafe'')"
| "is_pull_entry _ = False"

definition puller_event :: "event \<Rightarrow> bool" where
  "puller_event e = (puller_call e \<or> is_pull_entry e)"

text \<open>Classes of events, for counting.\<close>

fun fs_event :: "event \<Rightarrow> bool" where
  "fs_event (Ev (FsReadFile _) _) = True"
| "fs_event (Ev (FsStat _) _) = True"
| "fs_event (Ev (FsCopyFile _ _) _) = True"
| "fs_event _ = False"

fun network_event :: "event \<Rightarrow> bool" where
  "network_event (Ev (Git _ Fetch) _) = True"
| "network_event (Ev (Git _ Pull) _) = True"
| "network_event (Ev (Git _ Push) _) = True"
| "network_event (Ev (GitClone _ _) _) = True"
| "network_event (Ev (GithubApi _ _) _) = True"
| "network_event _ = False"

fun is_stash :: "event \<Rightarrow> bool" where
  "is_stash (Ev (Git _ (Stash _)) _) = True"
| "is_stash _ = False"

fun stash_done :: "event \<Rightarrow> bool" where
  "stash_done (Ev (Git _ (Stash _)) b) = b"
| "stash_done _ = False"

fun is_pull :: "event \<Rightarrow> bool" where
  "is_pull (Ev (Git _ Pull) _) = True"
| "is_pull _ = False"

fun is_copy :: "event \<Rightarrow> bool" where
  "is_copy (Ev (FsCopyFile _ _) _) = True"
| "is_copy _ = False"

text \<open>The name of the backup the resolver makes of a conflicting file in world \<open>w\<close>,
  under the given marker.\<close>

definition backupName :: "'w env \<Rightarrow> conflict \<Rightarrow> string \<Rightarrow> 'w \<Rightarrow> string" where
  "backupName env c marker w = path c @ ''.'' @ marker @ ''.'' @ timestampOf (fst (toISOString env w))"

text \<open>Sample worlds.\<close>

definition quiet_repo :: sim where
  "quiet_repo = sim0"

definition fetch_down :: sim where
  "fetch_down = sim0\<lparr>changed := [''a.txt''], fetchOk := False\<rparr>"

definition diff_down :: sim where
  "diff_down = sim0\<lparr>changed := [''a.txt''], diffOut := None\<rparr>"

definition conflict_a :: conflict where
  "conflict_a = \<lparr>file = ''a.txt'', path = ''/dev/x/a.txt'', localMtime = 100,
     localHash = Some ''LOCAL A''\<rparr>"

definition conflict_b :: conflict where
  "conflict_b = \<lparr>file = ''b.txt'', path = ''/dev/x/b.txt'', localMtime = 100,
     localHash = Some ''LOCAL B''\<rparr>"

text \<open>Two files changed on both sides; the pulled versions are younger. The repository
  ignores the backup names.\<close>

definition two_changed :: sim where
  "two_changed = sim0\<lparr>
     committed := [(''/dev/x/a.txt'', ''BASE A''), (''/dev/x/b.txt'', ''BASE B'')],
     ignoresBackups := True,
     disk := [''/dev/x/a.txt'' \<mapsto> (''LOCAL A'', 100), ''/dev/x/b.txt'' \<mapsto> (''LOCAL B'', 100)],
     changed := [''a.txt'', ''b.txt''],
     diffOut := Some (''a.txt'' @ [nl] @ ''b.txt'' @ [nl]),
     incoming := [(''/dev/x/a.txt'', ''REMOTE A'', 200), (''/dev/x/b.txt'', ''REMOTE B'', 200)]\<rparr>"

text \<open>One file changed on both sides, the local one with the later modification time
  (a clock ahead, or a file dated in the future). The repository ignores the backup
  names.\<close>

definition conflict_late :: conflict where
  "conflict_late = \<lparr>file = ''a.txt'', path = ''/dev/x/a.txt'', localMtime = 900,
     localHash = Some ''LOCAL''\<rparr>"

definition local_later :: sim where
  "local_later = sim0\<lparr>
     committed := [(''/dev/x/a.txt'', ''BASE'')],
     ignoresBackups := True,
     disk := [''/dev/x/a.txt'' \<mapsto> (''LOCAL'', 900)],
     changed := [''a.txt''],
     diffOut := Some (''a.txt'' @ [nl]),
     incoming := [(''/dev/x/a.txt'', ''REMOTE'', 800)]\<rparr>"

text \<open>One file changed on both sides to the same content, in a plain clone (nothing
  ignored).\<close>

definition conflict_same :: conflict where
  "conflict_same = \<lparr>file = ''a.txt'', path = ''/dev/x/a.txt'', localMtime = 100,
     localHash = Some ''SAME''\<rparr>"

definition same_content :: sim where
  "same_content = sim0\<lparr>
     committed := [(''/dev/x/a.txt'', ''BASE'')],
     disk := [''/dev/x/a.txt'' \<mapsto> (''SAME'', 100)],
     changed := [''a.txt''],
     diffOut := Some (''a.txt'' @ [nl]),
     incoming := [(''/dev/x/a.txt'', ''SAME'', 200)]\<rparr>"

text \<open>The same with the local copy carrying the later modification time, in a repository
  that ignores the backup names.\<close>

definition conflict_same_late :: conflict where
  "conflict_same_late = \<lparr>file = ''a.txt'', path = ''/dev/x/a.txt'', localMtime = 900,
     localHash = Some ''SAME''\<rparr>"

definition same_content_late :: sim where
  "same_content_late = sim0\<lparr>
     committed := [(''/dev/x/a.txt'', ''BASE'')],
     ignoresBackups := True,
     disk := [''/dev/x/a.txt'' \<mapsto> (''SAME'', 900)],
     changed := [''a.txt''],
     diffOut := Some (''a.txt'' @ [nl]),
     incoming := [(''/dev/x/a.txt'', ''SAME'', 800)]\<rparr>"

text \<open>
  Reading a journal of the Safe Pusher: the success flags of the pushes in order, the
  events from the first push on, the events after the commit.
\<close>

fun push_flag :: "event \<Rightarrow> bool list" where
  "push_flag (Ev (Git _ Push) b) = [b]"
| "push_flag _ = []"

definition push_flags :: "event list \<Rightarrow> bool list" where
  "push_flags es = concat (map push_flag es)"

definition from_first_push :: "event list \<Rightarrow> event list" where
  "from_first_push es = dropWhile (\<lambda>e. push_flag e = []) es"

definition puller_runs :: "event list \<Rightarrow> nat" where
  "puller_runs es = length (filter is_pull_entry es)"

fun is_commit :: "event \<Rightarrow> bool" where
  "is_commit (Ev (Git _ (Commit _)) _) = True"
| "is_commit _ = False"

definition after_commit :: "event list \<Rightarrow> event list" where
  "after_commit es = drop 1 (dropWhile (\<lambda>e. \<not> is_commit e) es)"

definition calm :: "event \<Rightarrow> bool" where
  "calm e = (push_flag e = [] \<and> \<not> is_commit e)"

definition push_or_puller :: "event \<Rightarrow> bool" where
  "push_or_puller e = (push_flag e = [True] \<or> push_flag e = [False] \<or> puller_event e)"

text \<open>A repository with a local change and the remote at the same commit; the first push
  is rejected, the second accepted (or rejected too).\<close>

definition race_won :: sim where
  "race_won = sim0\<lparr>disk := [''/dev/x/a.txt'' \<mapsto> (''LOCAL'', 100)], changed := [''a.txt''],
     pushScript := [False, True]\<rparr>"


text \<open>
  Reading a journal of the orchestrator. Every iteration of the two loops starts with a
  progress report, followed at once by the entry into the operation run on the
  repository: \<open>visits\<close> lists the counter of each report with that operation and its
  argument. \<open>planned\<close> is the operation phase 3 runs on a remote repository, given the
  map of local repositories: a pull in the local path when the lower-cased name is a key,
  a clone otherwise.
\<close>

fun is_progress :: "event \<Rightarrow> bool" where
  "is_progress (Progress _ _) = True"
| "is_progress _ = False"

fun visits :: "event list \<Rightarrow> (nat \<times> string \<times> string) list" where
  "visits [] = []"
| "visits (e # es) =
     (case e of
        Progress c t \<Rightarrow>
          (case es of
             Enter f a # _ \<Rightarrow> (c, (f, a)) # visits es
           | _ \<Rightarrow> visits es)
      | _ \<Rightarrow> visits es)"

definition planned :: "(string \<times> string) list \<Rightarrow> gh_repo \<Rightarrow> string \<times> string" where
  "planned m ghRepo =
     (case map_of m (toLowerCase (name ghRepo)) of
        Some localPath \<Rightarrow> (''pullRepoSafe'', localPath)
      | None \<Rightarrow> (''cloneRepo'', name ghRepo))"

definition ticks :: "nat \<Rightarrow> nat \<Rightarrow> nat list" where
  "ticks start n = [Suc start ..< Suc (start + n)]"

text \<open>A run of the orchestrator: two remote repositories, A with a local clone and B
  without, and a local repository c that is not on the remote.\<close>

definition demo_config :: config where
  "demo_config = \<lparr>searchDirs = [''/dev''], username = ''u'', deleteEmptyRepos = True,
     commitTemplate = ''sync {date}'', dryRun = False\<rparr>"

definition demo_remote :: "gh_repo list" where
  "demo_remote = [\<lparr>name = ''A'', clone_url = ''https://example.org/A.git''\<rparr>,
     \<lparr>name = ''B'', clone_url = ''https://example.org/B.git''\<rparr>]"

definition demo_locals :: "(string \<times> string) list" where
  "demo_locals = [(''a'', ''/dev/a''), (''c'', ''/dev/c'')]"

section \<open>Properties\<close>

subsection \<open>The combinators\<close>

lemmas monad_defs = res_def wld_def evs_def ok_def raise_def fin_def bind_def andThen_def
  try_catch_def recover_def lift_def call_def clock_def mark_def

lemmas sim_defs = sim_env_def sim0_def sim_stash_def sim_pull_def sim_commit_def sim_push_def
  sim_copyFile_def writeFiles_def top_level_def

lemmas path_defs = path_join_def path_normalize_def Let_def

lemmas run_defs = resolveOne_def resolveSteps_def decideConflict_def backupFile_def
  getFileMtime_def getFileHash_def timestampOf_def stash_args_def Let_def
  skippedResolution_def failedResolution_def identicalResolution_def keptResolution_def

lemma onlyD: "only P m \<Longrightarrow> m w = (r, w1, es) \<Longrightarrow> list_all P es"
proof -
  assume a: "only P m" and b: "m w = (r, w1, es)"
  from a have "list_all P (evs (m w))" by (simp add: only_def)
  with b show ?thesis by (simp add: evs_def)
qed

lemma only_evs: "only P m \<Longrightarrow> list_all P (evs (m w))"
  by (simp add: only_def)

lemma only_mono: "only P m \<Longrightarrow> (\<And>e. P e \<Longrightarrow> Q e) \<Longrightarrow> only Q m"
  by (auto simp: only_def list_all_iff)

lemma only_ok: "only P (ok x)" and only_raise: "only P (raise e)" and only_fin: "only P (fin x)"
  by (simp_all add: only_def monad_defs)

lemma only_call: "P (Ev c True) \<Longrightarrow> P (Ev c False) \<Longrightarrow> only P (call c f)"
proof (unfold only_def, intro allI)
  fix w assume a: "P (Ev c True)" "P (Ev c False)"
  obtain r w1 where f: "f w = (r, w1)" by (cases "f w")
  show "list_all P (evs (call c f w))" using a f by (cases "isl r") (simp_all add: call_def evs_def)
qed

lemma only_clock: "only P (clock f)"
  by (auto simp: only_def monad_defs split: prod.splits)

lemma only_mark: "P e \<Longrightarrow> only P (mark e)"
  by (simp add: only_def monad_defs)

lemma only_lift: "only P m \<Longrightarrow> only P (lift m)"
proof (unfold only_def, intro allI)
  fix w assume a: "\<forall>w. list_all P (evs (m w))"
  obtain r w1 es where m: "m w = (r, w1, es)" by (cases "m w")
  from a have "list_all P (evs (m w))" by simp
  then show "list_all P (evs (lift m w))" using m by (simp add: lift_def evs_def)
qed

lemma only_bind:
  assumes "only P m" and "\<And>x. only P (f x)"
  shows "only P (bind m f)"
proof (unfold only_def, intro allI)
  fix w
  obtain r w1 es where m: "m w = (r, w1, es)" by (cases "m w")
  have es: "list_all P es" using assms(1) m by (rule onlyD)
  show "list_all P (evs (bind m f w))"
  proof (cases r)
    case (Inl e)
    then show ?thesis using m es by (simp add: bind_def evs_def)
  next
    case (Inr x)
    obtain r2 w2 es2 where f: "f x w1 = (r2, w2, es2)" by (cases "f x w1")
    have "list_all P es2" using assms(2) f by (rule onlyD)
    then show ?thesis using m es Inr f by (simp add: bind_def evs_def)
  qed
qed

lemma only_andThen:
  assumes "only P m" and "\<And>x. only P (f x)"
  shows "only P (andThen m f)"
proof (unfold only_def, intro allI)
  fix w
  obtain x w1 es where m: "m w = (x, w1, es)" by (cases "m w")
  have es: "list_all P es" using assms(1) m by (rule onlyD)
  obtain r2 w2 es2 where f: "f x w1 = (r2, w2, es2)" by (cases "f x w1")
  have "list_all P es2" using assms(2) f by (rule onlyD)
  then show "list_all P (evs (andThen m f w))" using m es f by (simp add: andThen_def evs_def)
qed

lemma only_try_catch:
  assumes "only P m" and "\<And>e. only P (h e)"
  shows "only P (try_catch m h)"
proof (unfold only_def, intro allI)
  fix w
  obtain r w1 es where m: "m w = (r, w1, es)" by (cases "m w")
  have es: "list_all P es" using assms(1) m by (rule onlyD)
  show "list_all P (evs (try_catch m h w))"
  proof (cases r)
    case (Inr x)
    then show ?thesis using m es by (simp add: try_catch_def evs_def)
  next
    case (Inl e)
    obtain r2 w2 es2 where f: "h e w1 = (r2, w2, es2)" by (cases "h e w1")
    have "list_all P es2" using assms(2) f by (rule onlyD)
    then show ?thesis using m es Inl f by (simp add: try_catch_def evs_def)
  qed
qed

lemma only_recover:
  assumes "only P m" and "\<And>e. only P (h e)"
  shows "only P (recover m h)"
proof (unfold only_def, intro allI)
  fix w
  obtain r w1 es where m: "m w = (r, w1, es)" by (cases "m w")
  have es: "list_all P es" using assms(1) m by (rule onlyD)
  show "list_all P (evs (recover m h w))"
  proof (cases r)
    case (Inr x)
    then show ?thesis using m es by (simp add: recover_def evs_def)
  next
    case (Inl e)
    obtain r2 w2 es2 where f: "h e w1 = (r2, w2, es2)" by (cases "h e w1")
    have "list_all P es2" using assms(2) f by (rule onlyD)
    then show ?thesis using m es Inl f by (simp add: recover_def evs_def)
  qed
qed

lemma only_if: "only P a \<Longrightarrow> only P b \<Longrightarrow> only P (if c then a else b)"
  by simp

lemma only_case_option:
  "only P a \<Longrightarrow> (\<And>x. only P (f x)) \<Longrightarrow> only P (case v of None \<Rightarrow> a | Some x \<Rightarrow> f x)"
  by (cases v) simp_all

lemma only_case_list:
  "only P a \<Longrightarrow> (\<And>x xs. only P (f x xs)) \<Longrightarrow> only P (case v of [] \<Rightarrow> a | x # xs \<Rightarrow> f x xs)"
  by (cases v) simp_all

lemmas only_rules = only_ok only_raise only_fin only_clock only_lift only_bind
  only_andThen only_try_catch only_recover only_if only_case_option only_case_list only_call only_mark

subsection \<open>What the Safe Puller and its parts can do\<close>

lemma only_getFileHash: "only puller_call (getFileHash env p)"
  unfolding getFileHash_def by (intro only_rules) simp_all

lemma only_getFileMtime: "only puller_call (getFileMtime env p)"
  unfolding getFileMtime_def by (intro only_rules) simp_all

lemma only_backupFile: "only puller_call (backupFile env p s)"
  unfolding backupFile_def Let_def by (intro only_rules) simp_all

lemma only_collectConflicts: "only puller_call (collectConflicts env rp rc ls)"
  by (induction ls) (auto simp: Let_def intro!: only_rules only_getFileHash only_getFileMtime)

lemma only_detectConflicts: "only puller_call (detectConflicts env rp)"
  unfolding detectConflicts_def Let_def by (intro only_rules only_collectConflicts) simp_all

lemma only_decideConflict: "only puller_call (decideConflict env c ts b)"
  unfolding decideConflict_def
  by (intro only_rules only_getFileHash only_getFileMtime only_backupFile) simp_all

lemma only_resolveSteps: "only puller_call (resolveSteps env rp c)"
  unfolding resolveSteps_def Let_def
  by (intro only_rules only_decideConflict only_backupFile) simp_all

lemma only_resolveOne: "only puller_call (resolveOne env rp c)"
proof (unfold only_def, intro allI)
  fix w
  obtain r w1 es where s: "resolveSteps env rp c w = (r, w1, es)"
    by (cases "resolveSteps env rp c w")
  have es: "list_all puller_call es" using only_resolveSteps s by (rule onlyD)
  obtain r2 w2 where a: "git_add env rp (file c) w1 = (r2, w2)"
    by (cases "git_add env rp (file c) w1")
  show "list_all puller_call (evs (resolveOne env rp c w))"
    using s es a by (auto simp: resolveOne_def evs_def call_def split: sum.splits prod.splits)
qed

lemma only_resolveConflicts: "only puller_call (resolveConflicts env rp cs)"
  by (induction cs) (auto intro!: only_rules only_resolveOne)

lemma pullRepoSafe_events:
  "\<exists>rest. evs (pullRepoSafe env rp w) = Enter ''pullRepoSafe'' rp # rest
      \<and> list_all puller_call rest"
proof -
  let ?body = "try_catch
       (bind (call (Git rp Status) (git_status env rp)) (\<lambda>status.
        bind (lift (detectConflicts env rp)) (\<lambda>conflictCheck.
        if hasConflicts conflictCheck then
          bind (lift (resolveConflicts env rp (conflicts conflictCheck))) (\<lambda>resolutions.
          ok (batchResult (conflicts conflictCheck) resolutions))
        else
          bind (if length (files status) > 0
                then call (Git rp (Stash plain_stash_args))
                       (git_stash env rp plain_stash_args)
                else ok ()) (\<lambda>_.
          bind (call (Git rp Pull) (git_pull env rp)) (\<lambda>result.
          case result of
            None \<Rightarrow> ok (NotPulled ''up to date'')
          | Some fs \<Rightarrow>
              if length fs > 0 then ok (PulledFiles (length fs))
              else ok (NotPulled ''up to date''))))))
       (\<lambda>err. fin (NotPulled (message err)))"
  have "only puller_call ?body"
    by (intro only_rules only_detectConflicts only_resolveConflicts) simp_all
  then have "list_all puller_call (evs (?body w))" by (rule only_evs)
  moreover have "evs (pullRepoSafe env rp w) = Enter ''pullRepoSafe'' rp # evs (?body w)"
    by (simp add: pullRepoSafe_def andThen_def mark_def evs_def split: prod.splits)
  ultimately show ?thesis by blast
qed

lemma only_pullRepoSafe: "only puller_event (pullRepoSafe env rp)"
proof (unfold only_def, intro allI)
  fix w
  obtain rest where "evs (pullRepoSafe env rp w) = Enter ''pullRepoSafe'' rp # rest"
    and "list_all puller_call rest"
    using pullRepoSafe_events [of env rp w] by blast
  then show "list_all puller_event (evs (pullRepoSafe env rp w))"
    by (simp add: puller_event_def list_all_iff)
qed

subsection \<open>What the operations after the commit keep\<close>

























subsection \<open>Empty repositories\<close>

lemma split_nl_ne: "split_nl s \<noteq> []"
  by (induction s) (auto split: list.splits)

lemma split_nl_plain: "nl \<notin> set n \<Longrightarrow> split_nl (n @ nl # s) = n # split_nl s"
  by (induction n) (auto split: list.splits simp: split_nl_ne)

lemma split_nl_single: "nl \<notin> set n \<Longrightarrow> split_nl n = [n]"
  by (induction n) (auto split: list.splits)

lemma split_nl_lines:
  "\<forall>n\<in>set ns. nl \<notin> set n \<Longrightarrow> split_nl (concat (map (\<lambda>n. n @ [nl]) ns) @ m) = ns @ split_nl m"
  by (induction ns) (auto simp: split_nl_plain)

lemma trim_lines:
  assumes "ns \<noteq> []" "\<forall>n\<in>set ns. plain_name n"
  shows "trim (ls_tree_output ns) = concat (map (\<lambda>n. n @ [nl]) (butlast ns)) @ last ns"
proof -
  obtain ms m where ns: "ns = ms @ [m]" using assms(1) by (cases ns rule: rev_cases) auto
  have pm: "plain_name m" using assms(2) ns by simp
  have hd_ns: "plain_name (hd ns)" using assms by (cases ns) auto
  let ?body = "concat (map (\<lambda>n. n @ [nl]) ms) @ m"
  have out: "ls_tree_output ns = ?body @ [nl]" by (simp add: ns ls_tree_output_def)
  have body_ne: "?body \<noteq> []" using pm by (simp add: plain_name_def)
  have hd_body: "hd (ls_tree_output ns) = hd (hd ns)"
    using hd_ns assms(1) by (cases ns) (auto simp: ls_tree_output_def plain_name_def)
  have out_ne: "ls_tree_output ns \<noteq> []" by (simp add: out)
  have front: "dropWhile is_space (ls_tree_output ns) = ls_tree_output ns"
    using hd_body hd_ns out_ne by (cases "ls_tree_output ns") (auto simp: plain_name_def)
  have last_body: "last ?body = last m" using pm by (simp add: plain_name_def)
  have bck: "dropWhile is_space (rev (?body @ [nl])) = rev ?body"
    using body_ne last_body pm
    by (cases ?body rule: rev_cases) (auto simp: plain_name_def is_space_def nl_def)
  have "trim (ls_tree_output ns) = rev (dropWhile is_space (rev (ls_tree_output ns)))"
    by (simp only: trim_def front)
  also have "\<dots> = rev (dropWhile is_space (rev (?body @ [nl])))" by (simp only: out)
  also have "\<dots> = ?body" by (simp only: bck rev_rev_ident)
  finally show ?thesis by (simp add: ns)
qed

lemma split_trim:
  assumes "\<forall>n\<in>set ns. plain_name n"
  shows "split_nl (trim (ls_tree_output ns)) = (if ns = [] then [[]] else ns)"
proof (cases "ns = []")
  case True
  then show ?thesis by (simp add: trim_def ls_tree_output_def)
next
  case False
  then obtain ms m where ns: "ns = ms @ [m]" by (cases ns rule: rev_cases) auto
  have a: "\<forall>n\<in>set ms. nl \<notin> set n" and b: "nl \<notin> set m"
    using assms ns by (auto simp: plain_name_def)
  have "split_nl (concat (map (\<lambda>n. n @ [nl]) ms) @ m) = ms @ split_nl m"
    using a by (rule split_nl_lines)
  then show ?thesis using trim_lines[OF False assms] b False by (simp add: ns split_nl_single)
qed

lemma readme_nonempty: "\<not> startsWith (toLowerCase []) ''readme''"
  by (simp add: startsWith_def toLowerCase_def)

text \<open>
  What the code does when the log and the listing are read: with \<open>count\<close> commits and
  the listing \<open>names\<close> (plain names, one per line) the answer is "empty" exactly when
  there is no commit, or one commit and a single line whose lower-cased text starts with
  "readme".
\<close>

lemma isRepoEmpty_by_listing:
  assumes "git_log env repoPath w = (Inr count, w1)"
    and "count = 1 \<longrightarrow> git_raw env repoPath ls_tree_args w1 = (Inr (ls_tree_output names), w2)"
    and "\<forall>n\<in>set names. plain_name n"
  shows "res (isRepoEmpty env repoPath w) \<longleftrightarrow>
           count = 0 \<or> (count = 1 \<and> (\<exists>n. names = [n] \<and> startsWith (toLowerCase n) ''readme''))"
proof (cases "count = 1")
  case False
  then show ?thesis using assms(1) by (simp add: isRepoEmpty_def monad_defs)
next
  case True
  then have raw: "git_raw env repoPath ls_tree_args w1 = (Inr (ls_tree_output names), w2)"
    using assms(2) by simp
  have r: "res (isRepoEmpty env repoPath w) \<longleftrightarrow>
        length (split_nl (trim (ls_tree_output names))) = 1
        \<and> startsWith (toLowerCase (split_nl (trim (ls_tree_output names)) ! 0)) ''readme''"
    using assms(1) raw True by (simp add: isRepoEmpty_def monad_defs Let_def)
  show ?thesis
  proof (cases names)
    case Nil
    then show ?thesis using r True by (simp add: split_trim readme_nonempty)
  next
    case (Cons n ns)
    then show ?thesis using r True assms(3) by (cases ns) (simp_all add: split_trim)
  qed
qed

lemma isRepoEmpty_raising_log:
  "isl (fst (git_log env repoPath w)) \<Longrightarrow> res (isRepoEmpty env repoPath w) = False"
  by (cases "git_log env repoPath w"; cases "fst (git_log env repoPath w)")
     (auto simp: isRepoEmpty_def monad_defs)

text \<open>
  C6 on the code. A repository without a commit is not classified empty: \<^verbatim>\<open>git log\<close>
  raises there, and the handler answers false before \<^verbatim>\<open>log.total === 0\<close> is looked at.
  A repository whose one commit holds a directory with two sources is classified empty
  when the directory's name starts with "Readme": the listing is not recursive. The two
  cases the claim names (only README.md; README.md and LICENSE) are classified as it
  says.
\<close>

theorem isRepoEmpty_misclassifies:
  "logTotal unborn = 0
   \<and> res (isRepoEmpty sim_env ''/dev/x'' unborn) = False
   \<and> logTotal readme_dir = 1
   \<and> tree readme_dir = [''Readme-src/main.c'', ''Readme-src/util.c'']
   \<and> res (isRepoEmpty sim_env ''/dev/x'' readme_dir) = True
   \<and> res (isRepoEmpty sim_env ''/dev/x'' readme_only) = True
   \<and> res (isRepoEmpty sim_env ''/dev/x'' readme_license) = False"
  by (simp add: isRepoEmpty_def monad_defs sim_defs unborn_def readme_dir_def readme_only_def
        readme_license_def ls_tree_args_def ls_tree_output_def trim_def is_space_def nl_def
        startsWith_def toLowerCase_def lower_char_def Let_def)

subsection \<open>The resolver, one iteration at a time\<close>

lemma fs_getFileHash: "only fs_event (getFileHash env p)"
  unfolding getFileHash_def by (intro only_rules) simp_all
lemma fs_getFileMtime: "only fs_event (getFileMtime env p)"
  unfolding getFileMtime_def by (intro only_rules) simp_all
lemma fs_backupFile: "only fs_event (backupFile env p s)"
  unfolding backupFile_def Let_def by (intro only_rules) simp_all
lemma fs_decideConflict: "only fs_event (decideConflict env c ts b)"
  unfolding decideConflict_def
  by (intro only_rules fs_getFileHash fs_getFileMtime fs_backupFile) simp_all

lemma fs_counts:
  "list_all fs_event es \<Longrightarrow> filter is_stash es = []"
  "list_all fs_event es \<Longrightarrow> filter stash_done es = []"
  "list_all fs_event es \<Longrightarrow> filter is_pull es = []"
  by (induction es) (auto elim: fs_event.elims)

lemma backupFile_run:
  "backupFile env p s w =
     (case fs_copyFile env p (p @ ''.'' @ s) w of
        (Inl e, w1) \<Rightarrow> (None, w1, [Ev (FsCopyFile p (p @ ''.'' @ s)) False])
      | (Inr u, w1) \<Rightarrow> (Some (p @ ''.'' @ s), w1, [Ev (FsCopyFile p (p @ ''.'' @ s)) True]))"
  by (simp add: backupFile_def monad_defs Let_def split: prod.splits sum.splits)

lemma decideConflict_kinds:
  "decideConflict env c ts b w = (Inr r, w1, es) \<Longrightarrow>
     resolution r \<noteq> Skipped \<and> resolution r \<noteq> Failed
     \<and> (resolution r = Identical \<longrightarrow> filter is_copy es = [])"
  by (auto simp: monad_defs identicalResolution_def keptResolution_def decideConflict_def
        getFileMtime_def getFileHash_def
       split: prod.splits sum.splits if_splits)

text \<open>The runs of one loop iteration, case by case.\<close>

lemma resolveOne_shape:
  fixes env :: "'w env"
  defines "lb \<equiv> \<lambda>c w. backupName env c ''local'' w"
  shows "(res (resolveOne env rp c w) = [skippedResolution c]
          \<and> evs (resolveOne env rp c w) = [Ev (FsCopyFile (path c) (lb c w)) False])
    \<or> (\<exists>e a. res (resolveOne env rp c w) = [failedResolution c e]
          \<and> evs (resolveOne env rp c w)
             = [Ev (FsCopyFile (path c) (lb c w)) True, Ev (Git rp (Stash a)) False])
    \<or> (\<exists>e a. res (resolveOne env rp c w) = [failedResolution c e]
          \<and> evs (resolveOne env rp c w)
             = [Ev (FsCopyFile (path c) (lb c w)) True, Ev (Git rp (Stash a)) True,
                Ev (Git rp Pull) False])
    \<or> (\<exists>e a mid. list_all fs_event mid \<and> res (resolveOne env rp c w) = [failedResolution c e]
          \<and> evs (resolveOne env rp c w)
             = [Ev (FsCopyFile (path c) (lb c w)) True, Ev (Git rp (Stash a)) True,
                Ev (Git rp Pull) True] @ mid)
    \<or> (\<exists>r a mid staged others. list_all fs_event mid
          \<and> resolution r \<noteq> Skipped \<and> resolution r \<noteq> Failed
          \<and> (resolution r = Identical \<longrightarrow> filter is_copy mid = [])
          \<and> list_all (\<lambda>r. resolution r = Failed) others
          \<and> res (resolveOne env rp c w) = r # others
          \<and> evs (resolveOne env rp c w)
              = [Ev (FsCopyFile (path c) (lb c w)) True, Ev (Git rp (Stash a)) True,
                 Ev (Git rp Pull) True] @ mid @ [Ev (Git rp (Add (file c))) staged])"
proof -
  obtain stamp wa where clk: "toISOString env w = (stamp, wa)" by (cases "toISOString env w")
  define ts where "ts = timestampOf stamp"
  have lb: "lb c w = path c @ ''.'' @ ''local.'' @ ts"
    using clk by (simp add: lb_def backupName_def ts_def)
  obtain rc wb where cp: "fs_copyFile env (path c) (path c @ ''.'' @ ''local.'' @ ts) wa = (rc, wb)"
    by (cases "fs_copyFile env (path c) (path c @ ''.'' @ ''local.'' @ ts) wa")
  note defs = resolveOne_def resolveSteps_def monad_defs Let_def backupFile_run
  show ?thesis
  proof (cases rc)
    case (Inl e0)
    then have "res (resolveOne env rp c w) = [skippedResolution c]
        \<and> evs (resolveOne env rp c w) = [Ev (FsCopyFile (path c) (lb c w)) False]"
      using clk cp by (simp add: defs ts_def lb)
    then show ?thesis by blast
  next
    case copied: (Inr u0)
    define b where "b = path c @ ''.'' @ ''local.'' @ ts"
    obtain rs wc where st: "git_stash env rp (stash_args ts) wb = (rs, wc)"
      by (cases "git_stash env rp (stash_args ts) wb")
    show ?thesis
    proof (cases rs)
      case (Inl e)
      then have "res (resolveOne env rp c w) = [failedResolution c e]
          \<and> evs (resolveOne env rp c w)
             = [Ev (FsCopyFile (path c) (lb c w)) True, Ev (Git rp (Stash (stash_args ts))) False]"
        using clk cp copied st by (simp add: defs ts_def lb)
      then show ?thesis by blast
    next
      case (Inr u)
      obtain rl wd where pl: "git_pull env rp wc = (rl, wd)" by (cases "git_pull env rp wc")
      show ?thesis
      proof (cases rl)
        case (Inl e)
        then have "res (resolveOne env rp c w) = [failedResolution c e]
          \<and> evs (resolveOne env rp c w)
              = [Ev (FsCopyFile (path c) (lb c w)) True,
                 Ev (Git rp (Stash (stash_args ts))) True, Ev (Git rp Pull) False]"
          using clk cp copied st Inr pl by (simp add: defs ts_def lb)
        then show ?thesis by blast
      next
        case pulled: (Inr fl)
        obtain dr we mid where dc: "decideConflict env c ts b wd = (dr, we, mid)"
          by (cases "decideConflict env c ts b wd")
        have mid: "list_all fs_event mid" using fs_decideConflict dc by (rule onlyD)
        show ?thesis
        proof (cases dr)
          case (Inl e)
          then have "res (resolveOne env rp c w) = [failedResolution c e]
            \<and> evs (resolveOne env rp c w)
              = [Ev (FsCopyFile (path c) (lb c w)) True,
                 Ev (Git rp (Stash (stash_args ts))) True, Ev (Git rp Pull) True] @ mid"
            using clk cp copied st Inr pl pulled dc by (simp add: defs ts_def lb b_def)
          then show ?thesis using mid by blast
        next
          case decided: (Inr r)
          have r: "resolution r \<noteq> Skipped \<and> resolution r \<noteq> Failed
                \<and> (resolution r = Identical \<longrightarrow> filter is_copy mid = [])"
            using dc[unfolded decided] by (rule decideConflict_kinds)
          obtain ra wf where ad: "git_add env rp (file c) we = (ra, wf)"
            by (cases "git_add env rp (file c) we")
          have "\<exists>others. list_all (\<lambda>r. resolution r = Failed) others
            \<and> res (resolveOne env rp c w) = r # others
            \<and> evs (resolveOne env rp c w)
              = [Ev (FsCopyFile (path c) (lb c w)) True,
                 Ev (Git rp (Stash (stash_args ts))) True, Ev (Git rp Pull) True] @ mid
                  @ [Ev (Git rp (Add (file c))) (\<not> isl ra)]"
            using clk cp copied st Inr pl pulled dc decided ad
            by (cases ra) (simp_all add: defs ts_def lb b_def failedResolution_def)
          then show ?thesis using mid r by blast
        qed
      qed
    qed
  qed
qed

lemma failed_not_skipped:
  "list_all (\<lambda>r. resolution r = Failed) rs \<Longrightarrow> filter (\<lambda>r. resolution r = Skipped) rs = []"
  by (induction rs) auto

lemma resolveOne_counts:
  "length (filter is_stash (evs (resolveOne env rp c w)))
     + length (filter (\<lambda>r. resolution r = Skipped) (res (resolveOne env rp c w))) = 1
   \<and> length (filter is_pull (evs (resolveOne env rp c w)))
     = length (filter stash_done (evs (resolveOne env rp c w)))
   \<and> res (resolveOne env rp c w) \<noteq> []"
  using resolveOne_shape [of env rp c w]
  by (elim exE conjE disjE)
     (simp_all add: fs_counts failed_not_skipped skippedResolution_def failedResolution_def)

lemma resolveConflicts_Cons:
  "resolveConflicts env rp (c # cs) w =
     (res (resolveOne env rp c w) @ res (resolveConflicts env rp cs (wld (resolveOne env rp c w))),
      wld (resolveConflicts env rp cs (wld (resolveOne env rp c w))),
      evs (resolveOne env rp c w) @ evs (resolveConflicts env rp cs (wld (resolveOne env rp c w))))"
  by (simp add: andThen_def fin_def res_def wld_def evs_def split: prod.splits)

text \<open>
  C3 (as the code has it). The resolver issues one stash for every conflicting file whose
  local backup succeeded, that is for every file it does not skip, and one pull after every
  stash that succeeded: stashes and skipped files add up to the number of conflicts.
\<close>

theorem stash_per_backed_up_file:
  "length (filter is_stash (evs (resolveConflicts env repoPath cs w)))
     + length (filter (\<lambda>r. resolution r = Skipped) (res (resolveConflicts env repoPath cs w)))
     = length cs
   \<and> length (filter is_pull (evs (resolveConflicts env repoPath cs w)))
     = length (filter stash_done (evs (resolveConflicts env repoPath cs w)))"
proof (induction cs arbitrary: w)
  case Nil
  show ?case by (simp add: monad_defs)
next
  case (Cons c cs)
  have a: "res (resolveConflicts env repoPath (c # cs) w) =
       res (resolveOne env repoPath c w)
         @ res (resolveConflicts env repoPath cs (wld (resolveOne env repoPath c w)))"
    and b: "evs (resolveConflicts env repoPath (c # cs) w) =
       evs (resolveOne env repoPath c w)
         @ evs (resolveConflicts env repoPath cs (wld (resolveOne env repoPath c w)))"
    by (simp_all only: resolveConflicts_Cons res_def evs_def fst_conv snd_conv)
  show ?case
    using resolveOne_counts [of env repoPath c w] Cons.IH [of "wld (resolveOne env repoPath c w)"]
    by (simp add: a b del: resolveConflicts.simps)
qed

text \<open>C3 as stated fails: a batch of two conflicting files is stashed twice and pulled
  twice.\<close>

theorem stash_per_file_counterexample:
  "length (filter is_stash
      (evs (resolveConflicts sim_env ''/dev/x'' [conflict_a, conflict_b] two_changed))) = 2
   \<and> length (filter is_pull
      (evs (resolveConflicts sim_env ''/dev/x'' [conflict_a, conflict_b] two_changed))) = 2"
  by (simp add: run_defs monad_defs sim_defs conflict_a_def conflict_b_def two_changed_def)

subsection \<open>Conflict preservation and the identical-content shortcut\<close>

lemma fingerprint_copies_nothing:
  "filter is_copy (evs (getFileMtime env p w)) = []"
  "filter is_copy (evs (getFileHash env p w)) = []"
  by (simp_all add: getFileMtime_def getFileHash_def monad_defs split: prod.splits sum.splits)

lemma decideConflict_identical:
  assumes "\<not> localMtime c > res (getFileMtime env (path c) w)"
    and "localHash c = res (getFileHash env (path c) (wld (getFileMtime env (path c) w)))"
  shows "res (decideConflict env c ts b w) = Inr (identicalResolution c)
       \<and> filter is_copy (evs (decideConflict env c ts b w)) = []"
proof -
  obtain rm wa e1 where m: "getFileMtime env (path c) w = (rm, wa, e1)"
    by (cases "getFileMtime env (path c) w")
  obtain rh wb e2 where h: "getFileHash env (path c) wa = (rh, wb, e2)"
    by (cases "getFileHash env (path c) wa")
  have "decideConflict env c ts b w = (Inr (identicalResolution c), wb, e1 @ e2)"
    using assms m h by (simp add: decideConflict_def bind_def lift_def ok_def res_def wld_def)
  moreover have "filter is_copy e1 = []" "filter is_copy e2 = []"
    using fingerprint_copies_nothing(1) [of env "path c" w]
      fingerprint_copies_nothing(2) [of env "path c" wa] m h
    by (simp_all add: evs_def)
  ultimately show ?thesis by (simp add: res_def evs_def)
qed

lemma resolveOne_identical:
  assumes "toISOString env w1 = (stamp, wa)"
    and "fs_copyFile env (path c) (backupName env c ''local'' w1) wa = (Inr u1, wb)"
    and "git_stash env repoPath (stash_args (timestampOf stamp)) wb = (Inr u2, wc)"
    and "git_pull env repoPath wc = (Inr fl, wd)"
    and "\<not> localMtime c > res (getFileMtime env (path c) wd)"
    and "localHash c = res (getFileHash env (path c) (wld (getFileMtime env (path c) wd)))"
  shows "hd (res (resolveOne env repoPath c w1)) = identicalResolution c"
proof -
  define ts where "ts = timestampOf stamp"
  define b where "b = path c @ ''.'' @ ''local.'' @ ts"
  have lb: "backupName env c ''local'' w1 = b"
    using assms(1) by (simp add: backupName_def ts_def b_def)
  obtain dr we mid where dc: "decideConflict env c ts b wd = (dr, we, mid)"
    by (cases "decideConflict env c ts b wd")
  have dr: "dr = Inr (identicalResolution c)"
    using decideConflict_identical [OF assms(5,6), of ts b] dc by (simp add: res_def)
  obtain ra wf where ad: "git_add env repoPath (file c) we = (ra, wf)"
    by (cases "git_add env repoPath (file c) we")
  show ?thesis
    using assms(1) assms(2)[unfolded lb] assms(3,4) dc dr ad
    by (cases ra)
       (simp_all add: resolveOne_def resolveSteps_def monad_defs Let_def backupFile_run
          ts_def b_def)
qed

text \<open>
  C4 (as the code has it). When the local modification time is not later than the remote
  one and the digests agree, the decision is \<open>identical\<close> and steps 4 and 5 copy nothing;
  whenever an iteration ends with the outcome \<open>identical\<close>, the one copy it has made is
  the local backup of step 1, which succeeded; and an iteration whose backup, stash and
  pull succeed and which then finds the local time not later and the digests equal ends
  with that outcome.
\<close>

theorem identical_outcome:
  "(\<not> localMtime c > res (getFileMtime env (path c) w)
      \<and> localHash c = res (getFileHash env (path c) (wld (getFileMtime env (path c) w)))
     \<longrightarrow> res (decideConflict env c ts b w) = Inr (identicalResolution c)
         \<and> filter is_copy (evs (decideConflict env c ts b w)) = [])
   \<and> (resolution (hd (res (resolveOne env repoPath c w1))) = Identical
     \<longrightarrow> filter is_copy (evs (resolveOne env repoPath c w1))
           = [Ev (FsCopyFile (path c) (backupName env c ''local'' w1)) True])
   \<and> (toISOString env w1 = (stamp, wa)
      \<and> fs_copyFile env (path c) (backupName env c ''local'' w1) wa = (Inr u1, wb)
      \<and> git_stash env repoPath (stash_args (timestampOf stamp)) wb = (Inr u2, wc)
      \<and> git_pull env repoPath wc = (Inr fl, wd)
      \<and> \<not> localMtime c > res (getFileMtime env (path c) wd)
      \<and> localHash c = res (getFileHash env (path c) (wld (getFileMtime env (path c) wd)))
     \<longrightarrow> hd (res (resolveOne env repoPath c w1)) = identicalResolution c)"
proof (intro conjI impI)
  assume "\<not> localMtime c > res (getFileMtime env (path c) w)
      \<and> localHash c = res (getFileHash env (path c) (wld (getFileMtime env (path c) w)))"
  then show "res (decideConflict env c ts b w) = Inr (identicalResolution c)"
    and "filter is_copy (evs (decideConflict env c ts b w)) = []"
    using decideConflict_identical [where c = c and env = env and w = w and ts = ts and b = b]
    by simp_all
next
  assume a: "resolution (hd (res (resolveOne env repoPath c w1))) = Identical"
  show "filter is_copy (evs (resolveOne env repoPath c w1))
           = [Ev (FsCopyFile (path c) (backupName env c ''local'' w1)) True]"
    using resolveOne_shape [of env repoPath c w1] a
    by (elim exE conjE disjE) (simp_all add: skippedResolution_def failedResolution_def)
next
  assume "toISOString env w1 = (stamp, wa)
      \<and> fs_copyFile env (path c) (backupName env c ''local'' w1) wa = (Inr u1, wb)
      \<and> git_stash env repoPath (stash_args (timestampOf stamp)) wb = (Inr u2, wc)
      \<and> git_pull env repoPath wc = (Inr fl, wd)
      \<and> \<not> localMtime c > res (getFileMtime env (path c) wd)
      \<and> localHash c = res (getFileHash env (path c) (wld (getFileMtime env (path c) wd)))"
  then show "hd (res (resolveOne env repoPath c w1)) = identicalResolution c"
    using resolveOne_identical [of env w1 stamp wa c u1 wb repoPath u2 wc fl wd] by blast
qed

theorem identical_outcome_witness:
  "res (decideConflict sim_env conflict_same ''t'' ''/dev/x/a.txt.local.t''
          (same_content\<lparr>disk := [''/dev/x/a.txt'' \<mapsto> (''SAME'', 200)]\<rparr>))
     = Inr (identicalResolution conflict_same)
   \<and> filter is_copy (evs (resolveOne sim_env ''/dev/x'' conflict_same same_content))
     = [Ev (FsCopyFile ''/dev/x/a.txt'' ''/dev/x/a.txt.local.2026-01-02T03-04-05-678Z'') True]
   \<and> hd (res (resolveOne sim_env ''/dev/x'' conflict_same same_content))
     = identicalResolution conflict_same"
proof -
  let ?w = "same_content\<lparr>disk := [''/dev/x/a.txt'' \<mapsto> (''SAME'', 200)]\<rparr>"
  let ?n = "''/dev/x/a.txt.local.2026-01-02T03-04-05-678Z''"
  let ?ts = "timestampOf ''2026-01-02T03:04:05.678Z''"
  let ?wb = "snd (fs_copyFile sim_env ''/dev/x/a.txt'' ?n same_content)"
  let ?wc = "snd (git_stash sim_env ''/dev/x'' (stash_args ?ts) ?wb)"
  let ?wd = "snd (git_pull sim_env ''/dev/x'' ?wc)"
  have h1: "\<not> localMtime conflict_same > res (getFileMtime sim_env (path conflict_same) ?w)
      \<and> localHash conflict_same
          = res (getFileHash sim_env (path conflict_same)
                   (wld (getFileMtime sim_env (path conflict_same) ?w)))"
    by (simp add: getFileMtime_def getFileHash_def monad_defs sim_defs conflict_same_def
          same_content_def)
  have h2: "resolution (hd (res (resolveOne sim_env ''/dev/x'' conflict_same same_content)))
      = Identical"
    by (simp add: run_defs monad_defs sim_defs conflict_same_def same_content_def)
  have n: "backupName sim_env conflict_same ''local'' same_content = ?n"
    by (simp add: backupName_def sim_env_def timestampOf_def conflict_same_def)
  have p: "path conflict_same = ''/dev/x/a.txt''" by (simp add: conflict_same_def)
  have h3: "toISOString sim_env same_content = (''2026-01-02T03:04:05.678Z'', same_content)
      \<and> fs_copyFile sim_env (path conflict_same)
            (backupName sim_env conflict_same ''local'' same_content) same_content
          = (Inr (), ?wb)
      \<and> git_stash sim_env ''/dev/x'' (stash_args ?ts) ?wb = (Inr (), ?wc)
      \<and> git_pull sim_env ''/dev/x'' ?wc = (Inr (Some [''/dev/x/a.txt'']), ?wd)
      \<and> \<not> localMtime conflict_same > res (getFileMtime sim_env (path conflict_same) ?wd)
      \<and> localHash conflict_same
          = res (getFileHash sim_env (path conflict_same)
                   (wld (getFileMtime sim_env (path conflict_same) ?wd)))"
    unfolding n p
    by (simp add: getFileMtime_def getFileHash_def monad_defs sim_defs conflict_same_def
          same_content_def stash_args_def)
  note t = identical_outcome [where c = conflict_same and env = sim_env and w = ?w
        and ts = "''t''" and b = "''/dev/x/a.txt.local.t''" and repoPath = "''/dev/x''"
        and ?w1.0 = same_content and stamp = "''2026-01-02T03:04:05.678Z''"
        and wa = same_content and ?u1.0 = "()" and wb = ?wb and ?u2.0 = "()" and wc = ?wc
        and fl = "Some [''/dev/x/a.txt'']" and wd = ?wd]
  show ?thesis using t h1 h2 h3 by (simp only: n p) simp
qed

text \<open>
  C4 as stated fails twice. With equal digests and the remote copy younger, in a plain
  clone, the outcome is \<open>identical\<close> and the resolution has created a backup file: the
  copy of step 1 succeeded. With equal digests and the local copy younger, the outcome is
  \<open>local-newer\<close>.
\<close>

theorem identical_shortcut_counterexample:
  "map resolution (res (resolveOne sim_env ''/dev/x'' conflict_same same_content)) = [Identical]
   \<and> filter is_copy (evs (resolveOne sim_env ''/dev/x'' conflict_same same_content))
        = [Ev (FsCopyFile ''/dev/x/a.txt'' ''/dev/x/a.txt.local.2026-01-02T03-04-05-678Z'')
             True]
   \<and> map resolution (res (resolveOne sim_env ''/dev/x'' conflict_same_late same_content_late))
        = [LocalNewer]"
  by (simp add: run_defs monad_defs sim_defs conflict_same_def same_content_def
        conflict_same_late_def same_content_late_def)

text \<open>
  C1 on the code. The local copy is the later one: the resolver restores it over the pulled
  file and only then makes the backup marked \<open>remote\<close>, which therefore holds the local
  content; the pulled content is in none of the three files. And in a batch of two, the
  second file is backed up after the first iteration has stashed and pulled the whole
  repository, so its backup marked \<open>local\<close> holds the remote content.
\<close>

theorem remote_backup_holds_local_content:
  "map resolution (res (resolveOne sim_env ''/dev/x'' conflict_late local_later)) = [LocalNewer]
   \<and> map_option fst (disk (wld (resolveOne sim_env ''/dev/x'' conflict_late local_later))
        ''/dev/x/a.txt.remote.2026-01-02T03-04-05-678Z'') = Some ''LOCAL''
   \<and> map_option fst (disk (wld (resolveOne sim_env ''/dev/x'' conflict_late local_later))
        ''/dev/x/a.txt.local.2026-01-02T03-04-05-678Z'') = Some ''LOCAL''
   \<and> map_option fst (disk (wld (resolveOne sim_env ''/dev/x'' conflict_late local_later))
        ''/dev/x/a.txt'') = Some ''LOCAL''
   \<and> map resolution
        (res (resolveConflicts sim_env ''/dev/x'' [conflict_a, conflict_b] two_changed))
        = [RemoteNewer, RemoteNewer]
   \<and> map_option fst
        (disk (wld (resolveConflicts sim_env ''/dev/x'' [conflict_a, conflict_b] two_changed))
           ''/dev/x/b.txt.local.2026-01-02T03-04-05-678Z'') = Some ''REMOTE B''"
  by (simp add: run_defs monad_defs sim_defs conflict_late_def local_later_def
        conflict_a_def conflict_b_def two_changed_def)

subsection \<open>The detector\<close>

text \<open>
  C5 (as the code has it). With no locally modified file the detector reports no conflict,
  after a status and a fetch: the fetch is issued before the list of local changes is
  looked at, and it is the only network operation of the detection (no diff follows).
\<close>

theorem detectConflicts_quiet_fetches:
  assumes "git_status env repoPath w = (Inr st, w1)" and "files st = []"
  shows "res (detectConflicts env repoPath w) = no_conflicts
       \<and> evs (detectConflicts env repoPath w) =
           [Ev (Git repoPath Status) True,
            Ev (Git repoPath Fetch) (\<not> isl (fst (git_fetch env repoPath w1)))]
       \<and> length (filter network_event (evs (detectConflicts env repoPath w))) = 1"
  using assms
  by (cases "git_fetch env repoPath w1"; cases "fst (git_fetch env repoPath w1)")
     (auto simp: detectConflicts_def monad_defs Let_def)

theorem detectConflicts_quiet_fetches_witness:
  "res (detectConflicts sim_env ''/dev/x'' quiet_repo) = no_conflicts
   \<and> evs (detectConflicts sim_env ''/dev/x'' quiet_repo) =
        [Ev (Git ''/dev/x'' Status) True, Ev (Git ''/dev/x'' Fetch) True]"
proof -
  have h: "git_status sim_env ''/dev/x'' quiet_repo
      = (Inr \<lparr>current = ''main'', files = []\<rparr>, quiet_repo)"
    by (simp add: sim_env_def quiet_repo_def sim0_def)
  have f: "fst (git_fetch sim_env ''/dev/x'' quiet_repo) = Inr ()"
    by (simp add: sim_env_def quiet_repo_def sim0_def)
  show ?thesis using detectConflicts_quiet_fetches [OF h] f by simp
qed

text \<open>C5 as stated fails: on a repository without local changes the detection performs a
  fetch, a network operation.\<close>

theorem detectConflicts_quiet_counterexample:
  "files (projr (fst (git_status sim_env ''/dev/x'' quiet_repo))) = []
   \<and> res (detectConflicts sim_env ''/dev/x'' quiet_repo) = no_conflicts
   \<and> filter network_event (evs (detectConflicts sim_env ''/dev/x'' quiet_repo))
        = [Ev (Git ''/dev/x'' Fetch) True]"
  by (simp add: detectConflicts_def monad_defs Let_def sim_env_def quiet_repo_def sim0_def)

text \<open>
  C8. Once the status has been read, a fetch that raises or a diff that raises makes the
  detector return \<open>no conflicts\<close>. (The detector cannot raise at all: its result is a
  plain value. The two fingerprint functions catch their own errors, so nothing raises
  from them into the detector.)
\<close>

theorem detectConflicts_fail_open:
  assumes "git_status env repoPath w = (Inr st, w1)"
    and "isl (fst (git_fetch env repoPath w1))
         \<or> (git_fetch env repoPath w1 = (Inr (), w2)
            \<and> isl (fst (git_diff env repoPath (diff_args (current st)) w2)))"
  shows "res (detectConflicts env repoPath w) = no_conflicts"
  using assms(2)
proof
  assume "isl (fst (git_fetch env repoPath w1))"
  then show ?thesis using assms(1)
    by (cases "git_fetch env repoPath w1")
       (auto simp: detectConflicts_def monad_defs Let_def isl_def)
next
  assume a: "git_fetch env repoPath w1 = (Inr (), w2)
            \<and> isl (fst (git_diff env repoPath (diff_args (current st)) w2))"
  then show ?thesis using assms(1)
    by (cases "git_diff env repoPath (diff_args (current st)) w2")
       (auto simp: detectConflicts_def monad_defs Let_def isl_def)
qed

theorem detectConflicts_fail_open_witness:
  "res (detectConflicts sim_env ''/dev/x'' fetch_down) = no_conflicts
   \<and> res (detectConflicts sim_env ''/dev/x'' diff_down) = no_conflicts"
proof -
  have s1: "git_status sim_env ''/dev/x'' fetch_down
      = (Inr \<lparr>current = ''main'', files = [''a.txt'']\<rparr>, fetch_down)"
    by (simp add: sim_env_def fetch_down_def sim0_def)
  have f1: "isl (fst (git_fetch sim_env ''/dev/x'' fetch_down))"
    by (simp add: sim_env_def fetch_down_def sim0_def)
  have s2: "git_status sim_env ''/dev/x'' diff_down
      = (Inr \<lparr>current = ''main'', files = [''a.txt'']\<rparr>, diff_down)"
    by (simp add: sim_env_def diff_down_def sim0_def)
  have f2: "git_fetch sim_env ''/dev/x'' diff_down = (Inr (), diff_down)
      \<and> isl (fst (git_diff sim_env ''/dev/x''
                 (diff_args (current \<lparr>current = ''main'', files = [''a.txt'']\<rparr>)) diff_down))"
    by (simp add: sim_env_def diff_down_def sim0_def)
  show ?thesis
    using detectConflicts_fail_open [OF s1 disjI1, OF f1]
      detectConflicts_fail_open [OF s2 disjI2, OF f2]
    by simp
qed

lemma detectConflicts_nonempty:
  "hasConflicts (res (detectConflicts env rp w)) \<Longrightarrow> conflicts (res (detectConflicts env rp w)) \<noteq> []"
  by (auto simp: detectConflicts_def monad_defs Let_def no_conflicts_def
        split: prod.splits sum.splits if_splits)

subsection \<open>The Safe Puller's result for a batch\<close>

lemma resolveConflicts_nonempty: "cs \<noteq> [] \<Longrightarrow> res (resolveConflicts env rp cs w) \<noteq> []"
proof (cases cs)
  case Nil
  assume "cs \<noteq> []" then show ?thesis using Nil by simp
next
  case (Cons c cs')
  have "res (resolveConflicts env rp (c # cs') w) =
       res (resolveOne env rp c w) @ res (resolveConflicts env rp cs' (wld (resolveOne env rp c w)))"
    by (simp only: resolveConflicts_Cons res_def fst_conv)
  then show ?thesis using resolveOne_counts [of env rp c w] Cons by simp
qed

lemma batchResult_pulled:
  "pulled (batchResult cs rs) \<longleftrightarrow> (\<exists>r\<in>set rs. resolution r \<noteq> Failed)"
proof -
  have "pulled (batchResult cs rs) \<longleftrightarrow>
      (\<exists>r\<in>set rs. resolution r \<noteq> Failed \<and> resolution r \<noteq> Skipped)
      \<or> (\<exists>r\<in>set rs. resolution r = Skipped)"
    by (simp add: batchResult_def Let_def filter_empty_conv)
  also have "\<dots> \<longleftrightarrow> (\<exists>r\<in>set rs. resolution r \<noteq> Failed)"
    by (metis outcome.distinct(19))
  finally show ?thesis .
qed

text \<open>
  C7. When the detector reports conflicts, the Safe Puller returns the batch result of the
  resolutions, and that result has \<open>pulled\<close> true exactly when some resolution is
  identical, local-newer, remote-newer or skipped; the batch is not empty, and \<open>pulled\<close>
  is false exactly when every resolution is failed.
\<close>

theorem pullRepoSafe_batch_rule:
  assumes "git_status env repoPath w = (Inr st, w1)"
    and "detectConflicts env repoPath w1 = (found, w2, es2)"
    and "hasConflicts found"
    and "resolveConflicts env repoPath (conflicts found) w2 = (rs, w3, es3)"
  shows "res (pullRepoSafe env repoPath w) = batchResult (conflicts found) rs
       \<and> rs \<noteq> []
       \<and> (pulled (res (pullRepoSafe env repoPath w)) \<longleftrightarrow>
            (\<exists>r\<in>set rs. resolution r \<in> {Identical, LocalNewer, RemoteNewer, Skipped}))
       \<and> (pulled (res (pullRepoSafe env repoPath w)) = False \<longleftrightarrow>
            (\<forall>r\<in>set rs. resolution r = Failed))"
proof -
  have r: "res (pullRepoSafe env repoPath w) = batchResult (conflicts found) rs"
    using assms by (simp add: pullRepoSafe_def monad_defs)
  have "conflicts found \<noteq> []"
    using detectConflicts_nonempty [of env repoPath w1] assms(2,3) by (simp add: res_def)
  then have ne: "rs \<noteq> []"
    using resolveConflicts_nonempty [of "conflicts found" env repoPath w2] assms(4)
    by (simp add: res_def)
  have k: "(x \<in> {Identical, LocalNewer, RemoteNewer, Skipped}) = (x \<noteq> Failed)" for x
    by (cases x) simp_all
  show ?thesis using r ne by (simp add: batchResult_pulled k del: insert_iff)
qed

theorem pullRepoSafe_batch_rule_witness:
  "pulled (res (pullRepoSafe sim_env ''/dev/x'' local_later))"
proof -
  let ?d = "detectConflicts sim_env ''/dev/x'' local_later"
  let ?r = "resolveConflicts sim_env ''/dev/x'' [conflict_late] local_later"
  have s: "git_status sim_env ''/dev/x'' local_later
      = (Inr \<lparr>current = ''main'', files = [''a.txt'']\<rparr>, local_later)"
    by (simp add: sim_env_def local_later_def sim0_def)
  have d: "?d = (\<lparr>hasConflicts = True, conflicts = [conflict_late]\<rparr>, local_later, evs ?d)"
    by (simp add: detectConflicts_def run_defs monad_defs sim_defs local_later_def
          conflict_late_def diff_args_def trim_def is_space_def nl_def path_defs)
  have r: "resolveConflicts sim_env ''/dev/x''
             (conflicts \<lparr>hasConflicts = True, conflicts = [conflict_late]\<rparr>) local_later
           = (res ?r, wld ?r, evs ?r)"
    by (simp add: res_def wld_def evs_def)
  have "map resolution (res ?r) = [LocalNewer]"
    by (simp add: run_defs monad_defs sim_defs conflict_late_def local_later_def)
  then have "LocalNewer \<in> resolution ` set (res ?r)"
    by (metis list.set_intros(1) set_map)
  then obtain x where x: "x \<in> set (res ?r)" "resolution x = LocalNewer"
    by (auto simp del: resolveConflicts.simps)
  have "resolution x \<in> {Identical, LocalNewer, RemoteNewer, Skipped}"
    by (simp add: x(2))
  then have ex: "\<exists>x\<in>set (res ?r). resolution x \<in> {Identical, LocalNewer, RemoteNewer, Skipped}"
    using x(1) by (rule rev_bexI[rotated])
  have h: "hasConflicts \<lparr>hasConflicts = True, conflicts = [conflict_late]\<rparr>" by simp
  show ?thesis using pullRepoSafe_batch_rule [OF s d h r] ex by blast
qed

subsection \<open>The Safe Pusher\<close>

lemma puller_call_quiet:
  "puller_call e \<Longrightarrow> push_flag e = [] \<and> \<not> is_commit e \<and> \<not> is_pull_entry e"
proof (cases e)
  case (Ev c b)
  assume "puller_call e"
  then have "puller_op c" using Ev by simp
  then have "push_flag (Ev c b) = [] \<and> \<not> is_commit (Ev c b)"
    by (cases c rule: puller_op.cases) simp_all
  then show ?thesis using Ev by simp
qed simp_all

lemma puller_event_quiet: "puller_event e \<Longrightarrow> push_flag e = [] \<and> \<not> is_commit e"
proof -
  assume "puller_event e"
  then consider "puller_call e" | "is_pull_entry e" by (auto simp: puller_event_def)
  then show ?thesis
  proof cases
    case 1
    then show ?thesis using puller_call_quiet by blast
  next
    case 2
    then show ?thesis by (cases e) simp_all
  qed
qed

lemma push_flags_simps:
  "push_flags [] = []"
  "push_flags (e # es) = push_flag e @ push_flags es"
  "push_flags (xs @ ys) = push_flags xs @ push_flags ys"
  by (simp_all add: push_flags_def)

lemma puller_runs_simps:
  "puller_runs [] = 0"
  "puller_runs (e # es) = (if is_pull_entry e then 1 else 0) + puller_runs es"
  "puller_runs (xs @ ys) = puller_runs xs + puller_runs ys"
  by (simp_all add: puller_runs_def)

lemma quiet_push_flags: "list_all (\<lambda>e. push_flag e = []) es \<Longrightarrow> push_flags es = []"
  by (induction es) (simp_all add: push_flags_def)

lemma quiet_from_first_push:
  "list_all (\<lambda>e. push_flag e = []) es \<Longrightarrow> from_first_push (es @ rest) = from_first_push rest"
  by (induction es) (simp_all add: from_first_push_def)

lemma quiet_after_commit:
  "list_all (\<lambda>e. \<not> is_commit e) es \<Longrightarrow> after_commit (es @ rest) = after_commit rest"
  by (induction es) (simp_all add: after_commit_def)

lemma quiet_no_commit:
  "list_all (\<lambda>e. \<not> is_commit e) es \<Longrightarrow> Ev (Git rp (Commit m)) b \<notin> set es"
  by (induction es) auto

lemma pullRepoSafe_quiet:
  "push_flags (evs (pullRepoSafe env rp w)) = []"
  "puller_runs (evs (pullRepoSafe env rp w)) = 1"
  "list_all puller_event (evs (pullRepoSafe env rp w))"
proof -
  obtain rest where e: "evs (pullRepoSafe env rp w) = Enter ''pullRepoSafe'' rp # rest"
    and r: "list_all puller_call rest"
    using pullRepoSafe_events [of env rp w] by blast
  have "list_all (\<lambda>e. push_flag e = []) rest" "list_all (\<lambda>e. \<not> is_pull_entry e) rest"
    using r puller_call_quiet by (auto simp: list_all_iff)
  then show "push_flags (evs (pullRepoSafe env rp w)) = []"
    and "puller_runs (evs (pullRepoSafe env rp w)) = 1"
    using e by (simp_all add: push_flags_simps quiet_push_flags puller_runs_def filter_empty_conv list_all_iff)
  show "list_all puller_event (evs (pullRepoSafe env rp w))"
    using only_pullRepoSafe by (rule only_evs)
qed

text \<open>The four runs of phase 3.\<close>

lemma pushWithRetry_shape:
  "(res (pushWithRetry env rp n w) = Inr (Pushed n False)
      \<and> evs (pushWithRetry env rp n w) = [Ev (Git rp Push) True])
   \<or> (\<exists>w1 e. isl (res (pushWithRetry env rp n w))
      \<and> evs (pushWithRetry env rp n w) = Ev (Git rp Push) False # evs (pullRepoSafe env rp w1))
   \<or> (\<exists>w1. res (pushWithRetry env rp n w) = Inr (Pushed n True)
      \<and> evs (pushWithRetry env rp n w)
          = Ev (Git rp Push) False # evs (pullRepoSafe env rp w1) @ [Ev (Git rp Push) True])
   \<or> (\<exists>w1. isl (res (pushWithRetry env rp n w))
      \<and> evs (pushWithRetry env rp n w)
          = Ev (Git rp Push) False # evs (pullRepoSafe env rp w1) @ [Ev (Git rp Push) False])"
proof -
  obtain r1 w1 where p1: "git_push env rp w = (r1, w1)" by (cases "git_push env rp w")
  show ?thesis
  proof (cases r1)
    case (Inr u)
    then have "res (pushWithRetry env rp n w) = Inr (Pushed n False)
      \<and> evs (pushWithRetry env rp n w) = [Ev (Git rp Push) True]"
      using p1 by (simp add: pushWithRetry_def monad_defs)
    then show ?thesis by blast
  next
    case (Inl e1)
    obtain pr w2 es2 where pl: "pullRepoSafe env rp w1 = (pr, w2, es2)"
      by (cases "pullRepoSafe env rp w1")
    have es2: "es2 = evs (pullRepoSafe env rp w1)" using pl by (simp add: evs_def)
    show ?thesis
    proof (cases "pulled pr \<or> pull_reason pr = Some ''up to date''")
      case False
      then have "isl (res (pushWithRetry env rp n w))
        \<and> evs (pushWithRetry env rp n w) = Ev (Git rp Push) False # es2"
        using p1 Inl pl by (simp add: pushWithRetry_def monad_defs)
      then show ?thesis unfolding es2 by blast
    next
      case True
      obtain r2 w3 where p2: "git_push env rp w2 = (r2, w3)" by (cases "git_push env rp w2")
      show ?thesis
      proof (cases r2)
        case (Inr u)
        have "res (pushWithRetry env rp n w) = Inr (Pushed n True)
          \<and> evs (pushWithRetry env rp n w) = Ev (Git rp Push) False # es2 @ [Ev (Git rp Push) True]"
          using p1 Inl pl True p2 Inr by (auto simp: pushWithRetry_def monad_defs)
        then show ?thesis unfolding es2 by blast
      next
        case second: (Inl e2)
        have "isl (res (pushWithRetry env rp n w))
          \<and> evs (pushWithRetry env rp n w) = Ev (Git rp Push) False # es2 @ [Ev (Git rp Push) False]"
          using p1 Inl pl True p2 second by (auto simp: pushWithRetry_def monad_defs)
        then show ?thesis unfolding es2 by blast
      qed
    qed
  qed
qed

lemma only_pullFirst: "only calm (pullFirst env rp st)"
  unfolding pullFirst_def
  by (intro only_rules only_mono [OF only_pullRepoSafe])
     (simp_all add: calm_def puller_event_quiet)

lemma pullFirst_early:
  "pullFirst env rp st w = (Inr (Some r), w1, es) \<Longrightarrow> pushed r = False"
  by (auto simp: pullFirst_def monad_defs split: prod.splits sum.splits if_splits)

lemma commitAll_shape:
  "(isl (res (commitAll env rp msg w)) \<and> list_all calm (evs (commitAll env rp msg w)))
   \<or> (\<exists>m. isl (res (commitAll env rp msg w))
        \<and> evs (commitAll env rp msg w) = [Ev (Git rp (Add ''.'')) True, Ev (Git rp (Commit m)) False])
   \<or> (\<exists>m. \<not> isl (res (commitAll env rp msg w))
        \<and> evs (commitAll env rp msg w) = [Ev (Git rp (Add ''.'')) True, Ev (Git rp (Commit m)) True])"
  by (auto simp: commitAll_def monad_defs Let_def calm_def split: prod.splits sum.splits)

lemma pushRepoSafe_shape:
  "\<exists>pre. list_all calm pre \<and>
     ((evs (pushRepoSafe env rp msg w) = pre \<and> pushed (res (pushRepoSafe env rp msg w)) = False)
    \<or> (\<exists>m. evs (pushRepoSafe env rp msg w) = pre @ [Ev (Git rp (Commit m)) False]
          \<and> pushed (res (pushRepoSafe env rp msg w)) = False)
    \<or> (\<exists>m n w1. evs (pushRepoSafe env rp msg w)
             = pre @ Ev (Git rp (Commit m)) True # evs (pushWithRetry env rp n w1)
          \<and> res (pushRepoSafe env rp msg w)
             = (case res (pushWithRetry env rp n w1) of
                  Inl e \<Rightarrow> NotPushed (message e) None | Inr r \<Rightarrow> r)))"
proof -
  note defs = pushRepoSafe_def monad_defs
  obtain r0 w0 where st: "git_status env rp w = (r0, w0)" by (cases "git_status env rp w")
  show ?thesis
  proof (cases r0)
    case (Inl e)
    then have "evs (pushRepoSafe env rp msg w) = [Enter ''pushRepoSafe'' rp, Ev (Git rp Status) False]
        \<and> pushed (res (pushRepoSafe env rp msg w)) = False"
      using st by (simp add: defs)
    moreover have "list_all calm [Enter ''pushRepoSafe'' rp, Ev (Git rp Status) False]"
      by (simp add: calm_def)
    ultimately show ?thesis by blast
  next
    case (Inr status)
    let ?p0 = "[Enter ''pushRepoSafe'' rp, Ev (Git rp Status) True]"
    have p0: "list_all calm ?p0" by (simp add: calm_def)
    show ?thesis
    proof (cases "files status = []")
      case True
      then have "evs (pushRepoSafe env rp msg w) = ?p0
          \<and> pushed (res (pushRepoSafe env rp msg w)) = False"
        using st Inr by (simp add: defs)
      then show ?thesis using p0 by blast
    next
      case changed: False
      obtain r1 w1 es1 where pf: "pullFirst env rp status w0 = (r1, w1, es1)"
        by (cases "pullFirst env rp status w0")
      have es1: "list_all calm es1" using only_pullFirst pf by (rule onlyD)
      have p1: "list_all calm (?p0 @ es1)" using p0 es1 by simp
      show ?thesis
      proof (cases r1)
        case (Inl e)
        then have "evs (pushRepoSafe env rp msg w) = ?p0 @ es1
          \<and> pushed (res (pushRepoSafe env rp msg w)) = False"
          using st Inr changed pf by (simp add: defs)
        then show ?thesis using p1 by blast
      next
        case first: (Inr early)
        show ?thesis
        proof (cases early)
          case (Some r)
          have "pushed r = False" using pf[unfolded first Some] by (rule pullFirst_early)
          then have "evs (pushRepoSafe env rp msg w) = ?p0 @ es1
            \<and> pushed (res (pushRepoSafe env rp msg w)) = False"
            using st Inr changed pf first Some by (simp add: defs)
          then show ?thesis using p1 by blast
        next
          case None
          obtain r2 w2 es2 where ca: "commitAll env rp msg w1 = (r2, w2, es2)"
            by (cases "commitAll env rp msg w1")
          let ?y = "pushWithRetry env rp (length (files status)) w2"
          obtain r3 w3 es3 where pw: "?y = (r3, w3, es3)" by (cases ?y)
          have run: "evs (pushRepoSafe env rp msg w)
                = ?p0 @ es1 @ es2 @ (if isl r2 then [] else es3)
              \<and> res (pushRepoSafe env rp msg w)
                = (case r2 of Inl e \<Rightarrow> NotPushed (message e) None
                   | Inr u \<Rightarrow> (case r3 of Inl e \<Rightarrow> NotPushed (message e) None | Inr r \<Rightarrow> r))"
            using st Inr changed pf first None ca pw
            by (cases r2; cases r3) (simp_all add: defs)
          from commitAll_shape [of env rp msg w1]
          show ?thesis
          proof (elim disjE exE conjE)
            assume "isl (res (commitAll env rp msg w1))"
              and "list_all calm (evs (commitAll env rp msg w1))"
            then have "isl r2" "list_all calm es2" using ca by (simp_all add: res_def evs_def)
            then have "evs (pushRepoSafe env rp msg w) = ?p0 @ es1 @ es2
              \<and> pushed (res (pushRepoSafe env rp msg w)) = False
              \<and> list_all calm (?p0 @ es1 @ es2)"
              using run p1 by (cases r2) simp_all
            then show ?thesis by blast
          next
            fix m assume "isl (res (commitAll env rp msg w1))"
              and "evs (commitAll env rp msg w1)
                   = [Ev (Git rp (Add ''.'')) True, Ev (Git rp (Commit m)) False]"
            then have "isl r2" "es2 = [Ev (Git rp (Add ''.'')) True, Ev (Git rp (Commit m)) False]"
              using ca by (simp_all add: res_def evs_def)
            then have "evs (pushRepoSafe env rp msg w)
                = (?p0 @ es1 @ [Ev (Git rp (Add ''.'')) True]) @ [Ev (Git rp (Commit m)) False]
              \<and> pushed (res (pushRepoSafe env rp msg w)) = False
              \<and> list_all calm (?p0 @ es1 @ [Ev (Git rp (Add ''.'')) True])"
              using run p1 by (cases r2) (simp_all add: calm_def)
            then show ?thesis by blast
          next
            fix m assume "\<not> isl (res (commitAll env rp msg w1))"
              and "evs (commitAll env rp msg w1)
                   = [Ev (Git rp (Add ''.'')) True, Ev (Git rp (Commit m)) True]"
            then have "\<not> isl r2" "es2 = [Ev (Git rp (Add ''.'')) True, Ev (Git rp (Commit m)) True]"
              using ca by (simp_all add: res_def evs_def)
            then have "evs (pushRepoSafe env rp msg w)
                = (?p0 @ es1 @ [Ev (Git rp (Add ''.'')) True])
                    @ Ev (Git rp (Commit m)) True # evs ?y
              \<and> res (pushRepoSafe env rp msg w)
                = (case res ?y of Inl e \<Rightarrow> NotPushed (message e) None | Inr r \<Rightarrow> r)
              \<and> list_all calm (?p0 @ es1 @ [Ev (Git rp (Add ''.'')) True])"
              using run p1 pw by (cases r2) (simp_all add: calm_def res_def evs_def)
            then show ?thesis by blast
          qed
        qed
      qed
    qed
  qed
qed

lemma calm_lists:
  assumes "list_all calm pre"
  shows "push_flags pre = []"
    and "from_first_push (pre @ rest) = from_first_push rest"
    and "after_commit (pre @ rest) = after_commit rest"
    and "Ev (Git rp (Commit m)) b \<notin> set pre"
proof -
  have a: "list_all (\<lambda>e. push_flag e = []) pre" and b: "list_all (\<lambda>e. \<not> is_commit e) pre"
    using assms by (simp_all add: calm_def list_all_iff)
  show "push_flags pre = []" using a by (rule quiet_push_flags)
  show "from_first_push (pre @ rest) = from_first_push rest" using a by (rule quiet_from_first_push)
  show "after_commit (pre @ rest) = after_commit rest" using b by (rule quiet_after_commit)
  show "Ev (Git rp (Commit m)) b \<notin> set pre" using b by (rule quiet_no_commit)
qed

lemma pushWithRetry_flags:
  "(push_flags (evs (pushWithRetry env rp n w)) = [True]
      \<and> res (pushWithRetry env rp n w) = Inr (Pushed n False))
   \<or> (push_flags (evs (pushWithRetry env rp n w)) = [False]
      \<and> isl (res (pushWithRetry env rp n w))
      \<and> puller_runs (evs (pushWithRetry env rp n w)) = 1)
   \<or> (push_flags (evs (pushWithRetry env rp n w)) = [False, True]
      \<and> res (pushWithRetry env rp n w) = Inr (Pushed n True)
      \<and> puller_runs (evs (pushWithRetry env rp n w)) = 1)
   \<or> (push_flags (evs (pushWithRetry env rp n w)) = [False, False]
      \<and> isl (res (pushWithRetry env rp n w))
      \<and> puller_runs (evs (pushWithRetry env rp n w)) = 1)"
  using pushWithRetry_shape [of env rp n w]
  by (elim disjE exE conjE)
     (simp_all add: push_flags_simps puller_runs_simps pullRepoSafe_quiet)

lemma pushWithRetry_events:
  "\<exists>b rest. evs (pushWithRetry env rp n w) = Ev (Git rp Push) b # rest
      \<and> list_all push_or_puller rest"
proof -
  have p: "list_all push_or_puller (evs (pullRepoSafe env rp w1))" for w1
    using pullRepoSafe_quiet(3) [of env rp w1] by (simp add: list_all_iff push_or_puller_def)
  show ?thesis
    using pushWithRetry_shape [of env rp n w]
    by (elim disjE exE conjE) (auto simp: p push_or_puller_def)
qed

text \<open>Every run of the Safe Pusher pushes at most twice, in one of five ways.\<close>

lemma push_runs:
  "(push_flags (evs (pushRepoSafe env repoPath msg w)) = []
      \<and> pushed (res (pushRepoSafe env repoPath msg w)) = False)
   \<or> (push_flags (evs (pushRepoSafe env repoPath msg w)) = [True]
      \<and> pushed (res (pushRepoSafe env repoPath msg w)) = True
      \<and> retried (res (pushRepoSafe env repoPath msg w)) = False)
   \<or> (push_flags (evs (pushRepoSafe env repoPath msg w)) = [False]
      \<and> pushed (res (pushRepoSafe env repoPath msg w)) = False
      \<and> puller_runs (from_first_push (evs (pushRepoSafe env repoPath msg w))) = 1)
   \<or> (push_flags (evs (pushRepoSafe env repoPath msg w)) = [False, True]
      \<and> pushed (res (pushRepoSafe env repoPath msg w)) = True
      \<and> retried (res (pushRepoSafe env repoPath msg w)) = True
      \<and> puller_runs (from_first_push (evs (pushRepoSafe env repoPath msg w))) = 1)
   \<or> (push_flags (evs (pushRepoSafe env repoPath msg w)) = [False, False]
      \<and> pushed (res (pushRepoSafe env repoPath msg w)) = False
      \<and> puller_runs (from_first_push (evs (pushRepoSafe env repoPath msg w))) = 1)"
proof -
  let ?x = "pushRepoSafe env repoPath msg w"
  obtain pre where pre: "list_all calm pre"
    and cases: "(evs ?x = pre \<and> pushed (res ?x) = False)
      \<or> (\<exists>m. evs ?x = pre @ [Ev (Git repoPath (Commit m)) False] \<and> pushed (res ?x) = False)
      \<or> (\<exists>m n w1. evs ?x = pre @ Ev (Git repoPath (Commit m)) True # evs (pushWithRetry env repoPath n w1)
            \<and> res ?x = (case res (pushWithRetry env repoPath n w1) of
                          Inl e \<Rightarrow> NotPushed (message e) None | Inr r \<Rightarrow> r))"
    using pushRepoSafe_shape [of env repoPath msg w] by blast
  from cases show ?thesis
  proof (elim disjE exE conjE)
    assume "evs ?x = pre" "pushed (res ?x) = False"
    then show ?thesis using calm_lists(1) [OF pre] by simp
  next
    fix m assume "evs ?x = pre @ [Ev (Git repoPath (Commit m)) False]" "pushed (res ?x) = False"
    then show ?thesis using calm_lists(1) [OF pre] by (simp add: push_flags_simps)
  next
    fix m n w1
    let ?y = "pushWithRetry env repoPath n w1"
    assume e: "evs ?x = pre @ Ev (Git repoPath (Commit m)) True # evs ?y"
      and r: "res ?x = (case res ?y of Inl e \<Rightarrow> NotPushed (message e) None | Inr r \<Rightarrow> r)"
    obtain b rest where y: "evs ?y = Ev (Git repoPath Push) b # rest"
      using pushWithRetry_events [of env repoPath n w1] by blast
    have f: "push_flags (evs ?x) = push_flags (evs ?y)"
      using calm_lists(1) [OF pre] by (simp add: e push_flags_simps)
    have "from_first_push (evs ?x) = from_first_push (Ev (Git repoPath (Commit m)) True # evs ?y)"
      using calm_lists(2) [OF pre] by (simp add: e)
    also have "\<dots> = evs ?y" by (simp add: from_first_push_def y)
    finally have g: "from_first_push (evs ?x) = evs ?y" .
    have fail: "isl (res ?y) \<Longrightarrow> pushed (res ?x) = False"
      by (cases "res ?y") (simp_all add: r)
    have good: "res ?y = Inr q \<Longrightarrow> res ?x = q" for q
      by (simp add: r)
    show ?thesis
      using pushWithRetry_flags [of env repoPath n w1]
      by (elim disjE conjE) (simp_all add: f g fail good)
  qed
qed


subsection \<open>The Safe Pusher in two parts\<close>

lemma pushRepoSafe_phases:
  "pushRepoSafe env rp msg w =
     (case beforePush env rp msg w of
        (Inl err, w1, pre) \<Rightarrow> (NotPushed (message err) None, w1, Enter ''pushRepoSafe'' rp # pre)
      | (Inr (Inl early), w1, pre) \<Rightarrow> (early, w1, Enter ''pushRepoSafe'' rp # pre)
      | (Inr (Inr n), w1, pre) \<Rightarrow>
          (case pushWithRetry env rp n w1 of
             (Inl err, w2, es) \<Rightarrow>
               (NotPushed (message err) None, w2, Enter ''pushRepoSafe'' rp # pre @ es)
           | (Inr r, w2, es) \<Rightarrow> (r, w2, Enter ''pushRepoSafe'' rp # pre @ es)))"
proof -
  obtain r0 w0 where st: "git_status env rp w = (r0, w0)" by (cases "git_status env rp w")
  note defs = pushRepoSafe_def beforePush_def andThen_def mark_def try_catch_def bind_def
    call_def ok_def fin_def
  show ?thesis
  proof (cases r0)
    case (Inl e)
    then show ?thesis using st by (simp add: defs)
  next
    case (Inr status)
    show ?thesis
    proof (cases "files status = []")
      case True
      then show ?thesis using st Inr by (simp add: defs)
    next
      case changed: False
      obtain r1 w1 es1 where pf: "pullFirst env rp status w0 = (r1, w1, es1)"
        by (cases "pullFirst env rp status w0")
      show ?thesis
      proof (cases r1)
        case (Inl e)
        then show ?thesis using st Inr changed pf by (simp add: defs)
      next
        case first: (Inr early)
        show ?thesis
        proof (cases early)
          case (Some r)
          then show ?thesis using st Inr changed pf first by (simp add: defs)
        next
          case None
          obtain r2 w2 es2 where ca: "commitAll env rp msg w1 = (r2, w2, es2)"
            by (cases "commitAll env rp msg w1")
          obtain r3 w3 es3 where pw: "pushWithRetry env rp (length (files status)) w2 = (r3, w3, es3)"
            by (cases "pushWithRetry env rp (length (files status)) w2")
          show ?thesis using st Inr changed pf first None ca pw
            by (cases r2; cases r3) (simp_all add: defs)
        qed
      qed
    qed
  qed
qed

lemma pushWithRetry_run:
  "pushWithRetry env rp n w =
     (case git_push env rp w of
        (Inr u, w1) \<Rightarrow> (Inr (Pushed n False), w1, [Ev (Git rp Push) True])
      | (Inl e1, w1) \<Rightarrow>
          (case pullRepoSafe env rp w1 of
             (pr, w2, esp) \<Rightarrow>
               if pulled pr \<or> pull_reason pr = Some ''up to date'' then
                 (case git_push env rp w2 of
                    (Inr u, w3) \<Rightarrow>
                      (Inr (Pushed n True), w3,
                       Ev (Git rp Push) False # esp @ [Ev (Git rp Push) True])
                  | (Inl e2, w3) \<Rightarrow>
                      (Inl e2, w3, Ev (Git rp Push) False # esp @ [Ev (Git rp Push) False]))
               else (Inl (Error ''Push rejected and pull failed''), w2,
                     Ev (Git rp Push) False # esp)))"
proof -
  obtain r1 w1 where p1: "git_push env rp w = (r1, w1)" by (cases "git_push env rp w")
  show ?thesis
  proof (cases r1)
    case (Inr u)
    then show ?thesis using p1 by (simp add: pushWithRetry_def monad_defs)
  next
    case (Inl e1)
    obtain pr w2 esp where pl: "pullRepoSafe env rp w1 = (pr, w2, esp)"
      by (cases "pullRepoSafe env rp w1")
    show ?thesis
    proof (cases "pulled pr \<or> pull_reason pr = Some ''up to date''")
      case False
      then show ?thesis using p1 Inl pl by (simp add: pushWithRetry_def monad_defs)
    next
      case True
      obtain r2 w3 where p2: "git_push env rp w2 = (r2, w3)" by (cases "git_push env rp w2")
      show ?thesis using p1 Inl pl True p2
        by (cases r2) (auto simp: pushWithRetry_def monad_defs)
    qed
  qed
qed

text \<open>
  C2. Every run of the Safe Pusher pushes at most twice, and in one of five ways: no push
  and no success; one accepted push, success without \<open>retried\<close>; a rejected push, one run
  of the Safe Puller and no second push, failure; a rejected push, one run of the Safe
  Puller and an accepted push, success with \<open>retried\<close>; a rejected push, one run of the
  Safe Puller and a rejected push, failure. Which of them it is: when the run reaches
  phase 3 and the first push is accepted, that is all; when the first push is rejected,
  the Safe Puller runs once, and if it pulled or found the repository up to date the
  push is made once more (accepted: success with \<open>retried\<close>; rejected: failure with the
  rejection's message), otherwise no second push is made and the result is the failure
  "Push rejected and pull failed".
\<close>

theorem push_retry_bounded:
  "((push_flags (evs (pushRepoSafe env repoPath msg w)) = []
      \<and> pushed (res (pushRepoSafe env repoPath msg w)) = False)
   \<or> (push_flags (evs (pushRepoSafe env repoPath msg w)) = [True]
      \<and> pushed (res (pushRepoSafe env repoPath msg w)) = True
      \<and> retried (res (pushRepoSafe env repoPath msg w)) = False)
   \<or> (push_flags (evs (pushRepoSafe env repoPath msg w)) = [False]
      \<and> pushed (res (pushRepoSafe env repoPath msg w)) = False
      \<and> puller_runs (from_first_push (evs (pushRepoSafe env repoPath msg w))) = 1)
   \<or> (push_flags (evs (pushRepoSafe env repoPath msg w)) = [False, True]
      \<and> pushed (res (pushRepoSafe env repoPath msg w)) = True
      \<and> retried (res (pushRepoSafe env repoPath msg w)) = True
      \<and> puller_runs (from_first_push (evs (pushRepoSafe env repoPath msg w))) = 1)
   \<or> (push_flags (evs (pushRepoSafe env repoPath msg w)) = [False, False]
      \<and> pushed (res (pushRepoSafe env repoPath msg w)) = False
      \<and> puller_runs (from_first_push (evs (pushRepoSafe env repoPath msg w))) = 1))
   \<and> (beforePush env repoPath msg w = (Inr (Inr n), w1, pre)
        \<and> git_push env repoPath w1 = (Inr u, w2)
      \<longrightarrow> res (pushRepoSafe env repoPath msg w) = Pushed n False
        \<and> evs (pushRepoSafe env repoPath msg w)
            = Enter ''pushRepoSafe'' repoPath # pre @ [Ev (Git repoPath Push) True])
   \<and> (beforePush env repoPath msg w = (Inr (Inr n), w1, pre)
        \<and> git_push env repoPath w1 = (Inl e1, w2)
        \<and> pullRepoSafe env repoPath w2 = (pr, w3, esp)
        \<and> git_push env repoPath w3 = (r2, w4)
      \<longrightarrow> (if pulled pr \<or> pull_reason pr = Some ''up to date''
           then res (pushRepoSafe env repoPath msg w)
                  = (case r2 of Inr u \<Rightarrow> Pushed n True | Inl e2 \<Rightarrow> NotPushed (message e2) None)
              \<and> evs (pushRepoSafe env repoPath msg w)
                  = Enter ''pushRepoSafe'' repoPath # pre @ Ev (Git repoPath Push) False # esp
                      @ [Ev (Git repoPath Push) (\<not> isl r2)]
           else res (pushRepoSafe env repoPath msg w)
                  = NotPushed ''Push rejected and pull failed'' None
              \<and> evs (pushRepoSafe env repoPath msg w)
                  = Enter ''pushRepoSafe'' repoPath # pre @ Ev (Git repoPath Push) False # esp))"
proof (intro conjI impI)
  show "(push_flags (evs (pushRepoSafe env repoPath msg w)) = []
      \<and> pushed (res (pushRepoSafe env repoPath msg w)) = False)
   \<or> (push_flags (evs (pushRepoSafe env repoPath msg w)) = [True]
      \<and> pushed (res (pushRepoSafe env repoPath msg w)) = True
      \<and> retried (res (pushRepoSafe env repoPath msg w)) = False)
   \<or> (push_flags (evs (pushRepoSafe env repoPath msg w)) = [False]
      \<and> pushed (res (pushRepoSafe env repoPath msg w)) = False
      \<and> puller_runs (from_first_push (evs (pushRepoSafe env repoPath msg w))) = 1)
   \<or> (push_flags (evs (pushRepoSafe env repoPath msg w)) = [False, True]
      \<and> pushed (res (pushRepoSafe env repoPath msg w)) = True
      \<and> retried (res (pushRepoSafe env repoPath msg w)) = True
      \<and> puller_runs (from_first_push (evs (pushRepoSafe env repoPath msg w))) = 1)
   \<or> (push_flags (evs (pushRepoSafe env repoPath msg w)) = [False, False]
      \<and> pushed (res (pushRepoSafe env repoPath msg w)) = False
      \<and> puller_runs (from_first_push (evs (pushRepoSafe env repoPath msg w))) = 1)"
    by (rule push_runs)
next
  assume a: "beforePush env repoPath msg w = (Inr (Inr n), w1, pre)
        \<and> git_push env repoPath w1 = (Inr u, w2)"
  then have "pushRepoSafe env repoPath msg w
      = (Pushed n False, w2, Enter ''pushRepoSafe'' repoPath # pre @ [Ev (Git repoPath Push) True])"
    by (simp add: pushRepoSafe_phases pushWithRetry_run)
  then show "res (pushRepoSafe env repoPath msg w) = Pushed n False"
    and "evs (pushRepoSafe env repoPath msg w)
            = Enter ''pushRepoSafe'' repoPath # pre @ [Ev (Git repoPath Push) True]"
    by (simp_all add: res_def evs_def)
next
  assume a: "beforePush env repoPath msg w = (Inr (Inr n), w1, pre)
        \<and> git_push env repoPath w1 = (Inl e1, w2)
        \<and> pullRepoSafe env repoPath w2 = (pr, w3, esp)
        \<and> git_push env repoPath w3 = (r2, w4)"
  show "if pulled pr \<or> pull_reason pr = Some ''up to date''
           then res (pushRepoSafe env repoPath msg w)
                  = (case r2 of Inr u \<Rightarrow> Pushed n True | Inl e2 \<Rightarrow> NotPushed (message e2) None)
              \<and> evs (pushRepoSafe env repoPath msg w)
                  = Enter ''pushRepoSafe'' repoPath # pre @ Ev (Git repoPath Push) False # esp
                      @ [Ev (Git repoPath Push) (\<not> isl r2)]
           else res (pushRepoSafe env repoPath msg w)
                  = NotPushed ''Push rejected and pull failed'' None
              \<and> evs (pushRepoSafe env repoPath msg w)
                  = Enter ''pushRepoSafe'' repoPath # pre @ Ev (Git repoPath Push) False # esp"
  proof (cases "pulled pr \<or> pull_reason pr = Some ''up to date''")
    case False
    then show ?thesis using a
      by (simp add: pushRepoSafe_phases pushWithRetry_run res_def evs_def)
  next
    case True
    then show ?thesis using a
      by (cases r2) (auto simp: pushRepoSafe_phases pushWithRetry_run res_def evs_def)
  qed
qed

theorem push_retry_bounded_witness:
  "res (pushRepoSafe sim_env ''/dev/x'' ''sync {date}'' race_won) = Pushed 1 True"
proof -
  let ?b = "beforePush sim_env ''/dev/x'' ''sync {date}'' race_won"
  let ?w2 = "snd (git_push sim_env ''/dev/x'' (wld ?b))"
  let ?p = "pullRepoSafe sim_env ''/dev/x'' ?w2"
  let ?w4 = "snd (git_push sim_env ''/dev/x'' (wld ?p))"
  note ev = beforePush_def pullFirst_def commitAll_def pullRepoSafe_def detectConflicts_def
    monad_defs sim_defs race_won_def Let_def startsWith_def no_conflicts_def
  have h1: "?b = (Inr (Inr 1), wld ?b, evs ?b)" by (simp add: ev)
  have h2: "git_push sim_env ''/dev/x'' (wld ?b) = (Inl (Error ''rejected''), ?w2)"
    by (simp add: ev)
  have h3: "?p = (res ?p, wld ?p, evs ?p)" by (simp add: res_def wld_def evs_def)
  have c1: "pull_reason (res ?p) = Some ''up to date''" by (simp add: ev)
  have h4: "git_push sim_env ''/dev/x'' (wld ?p) = (Inr (), ?w4)" by (simp add: ev)
  have h: "?b = (Inr (Inr 1), wld ?b, evs ?b)
        \<and> git_push sim_env ''/dev/x'' (wld ?b) = (Inl (Error ''rejected''), ?w2)
        \<and> ?p = (res ?p, wld ?p, evs ?p)
        \<and> git_push sim_env ''/dev/x'' (wld ?p) = (Inr (), ?w4)"
    using h1 h2 h3 h4 by blast
  show ?thesis
    using push_retry_bounded [THEN conjunct2, THEN conjunct2, rule_format, OF h] c1
    by simp
qed




text \<open>A sample run of the race: the first push is rejected, the Safe Puller finds nothing
  to pull, the second push is accepted.\<close>

lemma race_won_run:
  "res (pushRepoSafe sim_env ''/dev/x'' ''sync {date}'' race_won) = Pushed 1 True
   \<and> push_flags (evs (pushRepoSafe sim_env ''/dev/x'' ''sync {date}'' race_won)) = [False, True]"
  by (simp add: pushRepoSafe_def pullFirst_def commitAll_def pushWithRetry_def
        pullRepoSafe_def detectConflicts_def monad_defs sim_defs race_won_def Let_def
        startsWith_def no_conflicts_def push_flags_def)

subsection \<open>The orchestrator\<close>

lemma visits_skip:
  "list_all (\<lambda>e. \<not> is_progress e) es \<Longrightarrow> visits (es @ rest) = visits rest"
proof (induction es)
  case Nil
  show ?case by simp
next
  case (Cons e es)
  then show ?case by (cases e) simp_all
qed

lemma visits_step:
  "list_all (\<lambda>e. \<not> is_progress e) es \<Longrightarrow>
     visits (Progress c t # Enter f a # es @ rest) = (c, (f, a)) # visits rest"
  using visits_skip [of "Enter f a # es" rest] by simp

lemma puller_call_no_progress: "puller_call e \<Longrightarrow> \<not> is_progress e"
  by (cases e) simp_all

lemma puller_event_no_progress: "puller_event e \<Longrightarrow> \<not> is_progress e"
  by (cases e) (simp_all add: puller_event_def)

lemma only_pushRepoSafe: "only (\<lambda>e. \<not> is_progress e) (pushRepoSafe env rp msg)"
  unfolding pushRepoSafe_def pullFirst_def commitAll_def pushWithRetry_def Let_def
  by (intro only_rules only_mono [OF only_pullRepoSafe])
     (simp_all add: puller_event_no_progress)

lemma isRepoEmpty_events:
  "\<exists>rest. evs (isRepoEmpty env rp w) = Enter ''isRepoEmpty'' rp # rest
     \<and> list_all (\<lambda>e. \<not> is_progress e) rest"
proof -
  let ?body = "try_catch
       (bind (call (Git rp Log) (git_log env rp)) (\<lambda>total.
          if total = 0 then ok True
          else if total = 1 then
            bind (call (Git rp (Raw ls_tree_args)) (git_raw env rp ls_tree_args))
              (\<lambda>files.
                 let fileList = split_nl (trim files) in
                 if length fileList = 1 \<and> startsWith (toLowerCase (fileList ! 0)) ''readme''
                 then ok True else ok False)
          else ok False))
       (\<lambda>err. fin False)"
  have "only (\<lambda>e. \<not> is_progress e) ?body"
    unfolding Let_def by (intro only_rules) simp_all
  then have "list_all (\<lambda>e. \<not> is_progress e) (evs (?body w))" by (rule only_evs)
  moreover have "evs (isRepoEmpty env rp w) = Enter ''isRepoEmpty'' rp # evs (?body w)"
    by (simp add: isRepoEmpty_def andThen_def mark_def evs_def split: prod.splits)
  ultimately show ?thesis by blast
qed

lemma only_deleteEmptyRepo: "only (\<lambda>e. \<not> is_progress e) (deleteEmptyRepo env n u d)"
  unfolding deleteEmptyRepo_def Let_def by (intro only_rules) simp_all

lemma only_deleteLocalRepo: "only (\<lambda>e. \<not> is_progress e) (deleteLocalRepo env p d)"
  unfolding deleteLocalRepo_def by (intro only_rules)

lemma cloneRepo_events:
  "\<exists>b. evs (cloneRepo env url dir n w) = [Enter ''cloneRepo'' n, Ev (GitClone url dir) b]"
  by (cases "git_clone env url dir w"; cases "fst (git_clone env url dir w)")
     (auto simp: cloneRepo_def monad_defs)

lemma map_delete_absent: "map_of m k = None \<Longrightarrow> map_delete k m = m"
  by (induction m) (auto simp: map_delete_def split: if_splits)

lemma map_of_map_delete: "k' \<noteq> k \<Longrightarrow> map_of (map_delete k m) k' = map_of m k'"
  by (induction m) (auto simp: map_delete_def)

lemma map_of_nonempty:
  "\<forall>kv\<in>set m. snd kv \<noteq> [] \<Longrightarrow> map_of m k \<noteq> Some []"
  by (induction m) (auto split: if_splits)

text \<open>One iteration of phase 3.\<close>

lemma pullOrClone_step:
  assumes "searchDirs cfg \<noteq> []" and "\<forall>kv\<in>set (localRepos st). snd kv \<noteq> []"
  shows "\<exists>st1 w1 es. pullOrClone env cfg tot g st w
            = (Inr st1, w1,
               Progress (Suc (currentOp st)) tot # Enter (fst (planned (localRepos st) g))
                 (snd (planned (localRepos st) g)) # es)
          \<and> list_all (\<lambda>e. \<not> is_progress e) es
          \<and> currentOp st1 = Suc (currentOp st)
          \<and> localRepos st1 = map_delete (toLowerCase (name g)) (localRepos st)"
proof (cases "map_of (localRepos st) (toLowerCase (name g))")
  case None
  obtain dir0 dirs where sd: "searchDirs cfg = dir0 # dirs" using assms(1) by (cases "searchDirs cfg") auto
  let ?c = "cloneRepo env (clone_url g) (path_join dir0 (name g)) (name g)"
  obtain r w1 es where c: "?c w = (r, w1, es)" by (cases "?c w")
  obtain b where es: "es = [Enter ''cloneRepo'' (name g), Ev (GitClone (clone_url g) (path_join dir0 (name g))) b]"
    using cloneRepo_events [of env "clone_url g" "path_join dir0 (name g)" "name g" w] c
    by (auto simp: evs_def)
  have "\<exists>st1. pullOrClone env cfg tot g st w
          = (Inr st1, w1, Progress (Suc (currentOp st)) tot # es)
        \<and> currentOp st1 = Suc (currentOp st) \<and> localRepos st1 = localRepos st"
    using None sd c by (simp add: pullOrClone_def cloneMissing_def monad_defs Let_def)
  then show ?thesis using None es by (auto simp: planned_def map_delete_absent)
next
  case (Some p)
  have p: "p \<noteq> []" using assms(2) Some map_of_nonempty by metis
  obtain r w1 es where c: "pullRepoSafe env p w = (r, w1, es)" by (cases "pullRepoSafe env p w")
  obtain rest where es: "es = Enter ''pullRepoSafe'' p # rest" and rest: "list_all puller_call rest"
    using pullRepoSafe_events [of env p w] c by (auto simp: evs_def)
  have q: "list_all (\<lambda>e. \<not> is_progress e) rest"
    using rest puller_call_no_progress by (auto simp: list_all_iff)
  have "\<exists>st1. pullOrClone env cfg tot g st w
          = (Inr st1, w1, Progress (Suc (currentOp st)) tot # es)
        \<and> currentOp st1 = Suc (currentOp st)
        \<and> localRepos st1 = map_delete (toLowerCase (name g)) (localRepos st)"
    using Some p c by (simp add: pullOrClone_def monad_defs Let_def)
  then show ?thesis using Some es q by (auto simp: planned_def)
qed

lemma ticks_Suc: "ticks start (Suc n) = Suc start # ticks (Suc start) n"
  by (simp add: ticks_def upt_rec)

lemma ticks_0: "ticks start 0 = []"
  by (simp add: ticks_def)

lemma ticks_append: "ticks start (m + n) = ticks start m @ ticks (start + m) n"
proof (induction m arbitrary: start)
  case 0
  show ?case by (simp add: ticks_0)
next
  case (Suc m)
  show ?case using Suc [of "Suc start"] by (simp add: ticks_Suc)
qed

lemma length_ticks: "length (ticks start n) = n"
  by (simp add: ticks_def)

lemma planned_map_delete:
  "toLowerCase (name g) \<noteq> k \<Longrightarrow> planned (map_delete k m) g = planned m g"
  by (simp add: planned_def map_of_map_delete)

lemma phase3_run:
  assumes "searchDirs cfg \<noteq> []"
  shows "\<forall>kv\<in>set (localRepos st). snd kv \<noteq> [] \<Longrightarrow>
     distinct (map (\<lambda>g. toLowerCase (name g)) gs) \<Longrightarrow>
     \<exists>st1 w1 es. phase3 env cfg tot gs st w = (Inr st1, w1, es)
       \<and> (\<forall>rest. visits (es @ rest)
             = zip (ticks (currentOp st) (length gs)) (map (planned (localRepos st)) gs)
               @ visits rest)
       \<and> currentOp st1 = currentOp st + length gs
       \<and> localRepos st1
           = filter (\<lambda>kv. fst kv \<notin> set (map (\<lambda>g. toLowerCase (name g)) gs)) (localRepos st)"
proof (induction gs arbitrary: st w)
  case Nil
  show ?case by (simp add: ok_def ticks_0)
next
  case (Cons g gs)
  let ?k = "toLowerCase (name g)"
  obtain st1 w1 es1 where
    step: "pullOrClone env cfg tot g st w
            = (Inr st1, w1,
               Progress (Suc (currentOp st)) tot # Enter (fst (planned (localRepos st) g))
                 (snd (planned (localRepos st) g)) # es1)"
    and es1: "list_all (\<lambda>e. \<not> is_progress e) es1"
    and cur1: "currentOp st1 = Suc (currentOp st)"
    and loc1: "localRepos st1 = map_delete ?k (localRepos st)"
    using pullOrClone_step [OF assms Cons.prems(1), of env tot g w] by blast
  have ne1: "\<forall>kv\<in>set (localRepos st1). snd kv \<noteq> []"
    using Cons.prems(1) by (simp add: loc1 map_delete_def)
  have d1: "distinct (map (\<lambda>g. toLowerCase (name g)) gs)" using Cons.prems(2) by simp
  obtain st2 w2 es2 where
    run: "phase3 env cfg tot gs st1 w1 = (Inr st2, w2, es2)"
    and vis: "\<And>rest. visits (es2 @ rest)
             = zip (ticks (currentOp st1) (length gs)) (map (planned (localRepos st1)) gs)
               @ visits rest"
    and cur2: "currentOp st2 = currentOp st1 + length gs"
    and loc2: "localRepos st2
           = filter (\<lambda>kv. fst kv \<notin> set (map (\<lambda>g. toLowerCase (name g)) gs)) (localRepos st1)"
    using Cons.IH [OF ne1 d1, of w1] by blast
  have same: "map (planned (localRepos st1)) gs = map (planned (localRepos st)) gs"
  proof (rule map_cong [OF refl])
    fix g' assume "g' \<in> set gs"
    then have "toLowerCase (name g') \<in> (\<lambda>g. toLowerCase (name g)) ` set gs"
      by (rule imageI)
    moreover have "?k \<notin> (\<lambda>g. toLowerCase (name g)) ` set gs"
      using Cons.prems(2) by simp
    ultimately have "toLowerCase (name g') \<noteq> ?k" by metis
    then show "planned (localRepos st1) g' = planned (localRepos st) g'"
      by (simp add: loc1 planned_map_delete)
  qed
  have all: "phase3 env cfg tot (g # gs) st w
      = (Inr st2, w2,
         (Progress (Suc (currentOp st)) tot # Enter (fst (planned (localRepos st) g))
            (snd (planned (localRepos st) g)) # es1) @ es2)"
    using step run by (simp add: bind_def)
  have v: "visits (((Progress (Suc (currentOp st)) tot # Enter (fst (planned (localRepos st) g))
            (snd (planned (localRepos st) g)) # es1) @ es2) @ rest)
      = zip (ticks (currentOp st) (length (g # gs))) (map (planned (localRepos st)) (g # gs))
          @ visits rest" for rest
  proof -
    have "visits (Progress (Suc (currentOp st)) tot # Enter (fst (planned (localRepos st) g))
            (snd (planned (localRepos st) g)) # es1 @ (es2 @ rest))
        = (Suc (currentOp st), planned (localRepos st) g) # visits (es2 @ rest)"
      using visits_step [OF es1] by simp
    then show ?thesis by (simp add: vis cur1 same ticks_Suc)
  qed
  have l: "localRepos st2
      = filter (\<lambda>kv. fst kv \<notin> set (map (\<lambda>g. toLowerCase (name g)) (g # gs))) (localRepos st)"
    by (auto simp: loc2 loc1 map_delete_def intro: filter_cong)
  show ?case using all v l cur1 cur2 by (simp del: phase3.simps visits.simps)
qed

lemma retireOrPush_step:
  "\<exists>st1 w1 es. retireOrPush env cfg tot entry st w
       = (st1, w1, Progress (Suc (currentOp st)) tot # Enter ''isRepoEmpty'' (snd entry) # es)
     \<and> list_all (\<lambda>e. \<not> is_progress e) es
     \<and> currentOp st1 = Suc (currentOp st)"
proof -
  obtain b w1 e1 where ie: "isRepoEmpty env (snd entry) w = (b, w1, e1)"
    by (cases "isRepoEmpty env (snd entry) w")
  obtain rest where e1: "e1 = Enter ''isRepoEmpty'' (snd entry) # rest"
    and rest: "list_all (\<lambda>e. \<not> is_progress e) rest"
    using isRepoEmpty_events [of env "snd entry" w] ie by (auto simp: evs_def)
  show ?thesis
  proof (cases "b \<and> deleteEmptyRepos cfg")
    case True
    let ?d = "deleteEmptyRepo env (fst entry) (username cfg) (dryRun cfg)"
    obtain d w2 e2 where de: "?d w1 = (d, w2, e2)" by (cases "?d w1")
    have e2: "list_all (\<lambda>e. \<not> is_progress e) e2" using only_deleteEmptyRepo de by (rule onlyD)
    have "\<exists>st1. retireOrPush env cfg tot entry st w
         = (st1, w2, Progress (Suc (currentOp st)) tot # e1 @ e2)
       \<and> currentOp st1 = Suc (currentOp st)"
      using ie True de
      by (simp add: retireOrPush_def deleteLocalRepo_def andThen_def mark_def fin_def Let_def)
    then show ?thesis using e1 rest e2 by auto
  next
    case False
    let ?p = "pushRepoSafe env (snd entry) (commitTemplate cfg)"
    obtain r w2 e2 where pu: "?p w1 = (r, w2, e2)" by (cases "?p w1")
    have e2: "list_all (\<lambda>e. \<not> is_progress e) e2" using only_pushRepoSafe pu by (rule onlyD)
    have "\<exists>st1. retireOrPush env cfg tot entry st w
         = (st1, w2, Progress (Suc (currentOp st)) tot # e1 @ e2)
       \<and> currentOp st1 = Suc (currentOp st)"
      using ie False pu
      by (cases b; cases "deleteEmptyRepos cfg")
         (simp_all add: retireOrPush_def andThen_def mark_def fin_def Let_def)
    then show ?thesis using e1 rest e2 by auto
  qed
qed

lemma phase4_run:
  "\<exists>st1 w1 es. phase4 env cfg tot entries st w = (st1, w1, es)
       \<and> (\<forall>rest. visits (es @ rest)
             = zip (ticks (currentOp st) (length entries))
                 (map (\<lambda>kv. (''isRepoEmpty'', snd kv)) entries)
               @ visits rest)
       \<and> currentOp st1 = currentOp st + length entries"
proof (induction entries arbitrary: st w)
  case Nil
  show ?case by (simp add: fin_def ticks_0)
next
  case (Cons entry entries)
  obtain st1 w1 es1 where
    step: "retireOrPush env cfg tot entry st w
       = (st1, w1, Progress (Suc (currentOp st)) tot # Enter ''isRepoEmpty'' (snd entry) # es1)"
    and es1: "list_all (\<lambda>e. \<not> is_progress e) es1"
    and cur1: "currentOp st1 = Suc (currentOp st)"
    using retireOrPush_step [of env cfg tot entry st w] by blast
  obtain st2 w2 es2 where
    run: "phase4 env cfg tot entries st1 w1 = (st2, w2, es2)"
    and vis: "\<And>rest. visits (es2 @ rest)
             = zip (ticks (currentOp st1) (length entries))
                 (map (\<lambda>kv. (''isRepoEmpty'', snd kv)) entries)
               @ visits rest"
    and cur2: "currentOp st2 = currentOp st1 + length entries"
    using Cons.IH [of st1 w1] by blast
  have all: "phase4 env cfg tot (entry # entries) st w
      = (st2, w2,
         (Progress (Suc (currentOp st)) tot # Enter ''isRepoEmpty'' (snd entry) # es1) @ es2)"
    using step run by (simp add: andThen_def)
  have v: "visits (((Progress (Suc (currentOp st)) tot # Enter ''isRepoEmpty'' (snd entry) # es1)
            @ es2) @ rest)
      = zip (ticks (currentOp st) (length (entry # entries)))
          (map (\<lambda>kv. (''isRepoEmpty'', snd kv)) (entry # entries))
          @ visits rest" for rest
  proof -
    have "visits (Progress (Suc (currentOp st)) tot # Enter ''isRepoEmpty'' (snd entry)
            # es1 @ (es2 @ rest))
        = (Suc (currentOp st), (''isRepoEmpty'', snd entry)) # visits (es2 @ rest)"
      using visits_step [OF es1] by simp
    then show ?thesis by (simp add: vis cur1 ticks_Suc)
  qed
  show ?case using all v cur1 cur2 by (simp del: phase4.simps visits.simps)
qed

text \<open>
  C10 (as the code has it). With a search directory configured, local paths that are not
  empty and names that are distinct in each inventory, the run completes; every remote
  repository is visited once in phase 3 (pulled when its lower-cased name is a local key,
  cloned otherwise), phase 4 visits once each local repository whose key is no remote
  name, and no name is in both passes; the progress counter goes up by one at every visit
  and ends at the number of visits, the number of remote repositories plus the number of
  unpaired local ones.
\<close>

theorem reconcile_visits_each_once:
  fixes env :: "'w env" and githubRepos :: "gh_repo list" and locals :: "(string \<times> string) list"
  defines "remote \<equiv> map (\<lambda>g. toLowerCase (name g)) githubRepos"
  defines "unpaired \<equiv> filter (\<lambda>kv. fst kv \<notin> set remote) locals"
  assumes "searchDirs cfg \<noteq> []"
    and "distinct (map fst locals)"
    and "\<forall>kv\<in>set locals. snd kv \<noteq> []"
    and "distinct remote"
  shows "\<not> isl (res (reconcile env cfg githubRepos locals w))
     \<and> currentOp (projr (res (reconcile env cfg githubRepos locals w)))
         = length githubRepos + length unpaired
     \<and> visits (evs (reconcile env cfg githubRepos locals w))
         = zip (ticks 0 (length githubRepos + length unpaired))
             (map (planned locals) githubRepos
              @ map (\<lambda>kv. (''isRepoEmpty'', snd kv)) unpaired)
     \<and> distinct (remote @ map fst unpaired)
     \<and> set (remote @ map fst unpaired) = set remote \<union> set (map fst locals)"
proof -
  let ?tot = "length githubRepos + length locals"
  let ?st0 = "\<lparr>results = no_results, currentOp = 0, localRepos = locals\<rparr>"
  have ne: "\<forall>kv\<in>set (localRepos ?st0). snd kv \<noteq> []" using assms(5) by simp
  have d: "distinct (map (\<lambda>g. toLowerCase (name g)) githubRepos)"
    using assms(6) by (simp add: remote_def)
  obtain st1 w1 es1 where
    p3: "phase3 env cfg ?tot githubRepos ?st0 w = (Inr st1, w1, es1)"
    and v3: "\<And>rest. visits (es1 @ rest)
             = zip (ticks (currentOp ?st0) (length githubRepos))
                 (map (planned (localRepos ?st0)) githubRepos) @ visits rest"
    and c3: "currentOp st1 = currentOp ?st0 + length githubRepos"
    and l3: "localRepos st1
           = filter (\<lambda>kv. fst kv \<notin> set (map (\<lambda>g. toLowerCase (name g)) githubRepos))
               (localRepos ?st0)"
    using phase3_run [OF assms(3) ne d, of env ?tot w] by blast
  have l3': "localRepos st1 = unpaired" using l3 by (simp add: unpaired_def remote_def)
  obtain st2 w2 es2 where
    p4: "phase4 env cfg ?tot unpaired st1 w1 = (st2, w2, es2)"
    and v4: "\<And>rest. visits (es2 @ rest)
             = zip (ticks (currentOp st1) (length unpaired))
                 (map (\<lambda>kv. (''isRepoEmpty'', snd kv)) unpaired) @ visits rest"
    and c4: "currentOp st2 = currentOp st1 + length unpaired"
    using phase4_run [of env cfg ?tot unpaired st1 w1] by blast
  have run: "reconcile env cfg githubRepos locals w = (Inr st2, w2, es1 @ es2)"
    using p3 p4 l3' by (simp add: reconcile_def bind_def lift_def Let_def)
  have "visits (es1 @ es2)
      = zip (ticks 0 (length githubRepos)) (map (planned locals) githubRepos)
        @ zip (ticks (length githubRepos) (length unpaired))
            (map (\<lambda>kv. (''isRepoEmpty'', snd kv)) unpaired)"
    using v3 [of es2] v4 [of "[]"] c3 by simp
  also have "\<dots> = zip (ticks 0 (length githubRepos + length unpaired))
             (map (planned locals) githubRepos
              @ map (\<lambda>kv. (''isRepoEmpty'', snd kv)) unpaired)"
    by (simp add: ticks_append length_ticks)
  finally have vis: "visits (es1 @ es2)
      = zip (ticks 0 (length githubRepos + length unpaired))
             (map (planned locals) githubRepos
              @ map (\<lambda>kv. (''isRepoEmpty'', snd kv)) unpaired)" .
  have dist: "distinct (remote @ map fst unpaired)"
    using assms(4,6) by (auto simp: unpaired_def distinct_map_filter)
  have sets: "set (remote @ map fst unpaired) = set remote \<union> set (map fst locals)"
    by (auto simp: unpaired_def)
  show ?thesis using run vis c3 c4 dist sets by (simp add: res_def evs_def)
qed

theorem reconcile_visits_each_once_witness:
  "visits (evs (reconcile sim_env demo_config demo_remote demo_locals sim0))
     = [(1, (''pullRepoSafe'', ''/dev/a'')), (2, (''cloneRepo'', ''B'')),
        (3, (''isRepoEmpty'', ''/dev/c''))]
   \<and> currentOp (projr (res (reconcile sim_env demo_config demo_remote demo_locals sim0))) = 3"
proof -
  have low: "map (\<lambda>g. toLowerCase (name g)) demo_remote = [''a'', ''b'']"
    by (simp add: demo_remote_def toLowerCase_def lower_char_def)
  have h1: "searchDirs demo_config \<noteq> []" by (simp add: demo_config_def)
  have h2: "distinct (map fst demo_locals)" by (simp add: demo_locals_def)
  have h3: "\<forall>kv\<in>set demo_locals. snd kv \<noteq> []" by (simp add: demo_locals_def)
  have h4: "distinct (map (\<lambda>g. toLowerCase (name g)) demo_remote)" by (simp add: low)
  have un: "filter (\<lambda>kv. fst kv \<notin> set (map (\<lambda>g. toLowerCase (name g)) demo_remote)) demo_locals
      = [(''c'', ''/dev/c'')]"
    by (simp add: low) (simp add: demo_locals_def)
  have pl: "map (planned demo_locals) demo_remote
      = [(''pullRepoSafe'', ''/dev/a''), (''cloneRepo'', ''B'')]"
    by (simp add: demo_remote_def demo_locals_def planned_def toLowerCase_def lower_char_def)
  have len: "length demo_remote = 2" "length demo_locals = 2"
    by (simp_all add: demo_remote_def demo_locals_def)
  have tk: "ticks 0 3 = [1, 2, 3]"
    by (simp add: ticks_def upt_rec)
  have tk2: "ticks 0 (2 + length [(''c'', ''/dev/c'')]) = [1, 2, 3]"
    using tk by simp
  note t = reconcile_visits_each_once [OF h1 h2 h3 h4, of sim_env sim0, unfolded un pl len tk2]
  show ?thesis using t by simp
qed

text \<open>C10 as stated fails at its last clause: with one paired repository the counter ends
  at three while the remote count plus the initial local count, which is also what the
  code computes as \<^verbatim>\<open>totalOps\<close>, is four.\<close>

theorem progress_total_counterexample:
  "currentOp (projr (res (reconcile sim_env demo_config demo_remote demo_locals sim0))) = 3
   \<and> length demo_remote + length demo_locals = 4"
  by (simp add: reconcile_def pullOrClone_def cloneMissing_def cloneRepo_def retireOrPush_def
        isRepoEmpty_def deleteEmptyRepo_def deleteLocalRepo_def countPull_def countPush_def
        pushRepoSafe_def pullRepoSafe_def detectConflicts_def map_delete_def no_results_def
        monad_defs sim_defs Let_def demo_config_def demo_remote_def demo_locals_def
        toLowerCase_def lower_char_def path_defs no_conflicts_def)

end
